theory Spec2Isabelle
  imports Main
begin

section \<open>Primitive layer: C11 thread statuses and errno values\<close>

text \<open>
  The status codes of \<^verbatim>\<open><threads.h>\<close>. Every mutex, condition-variable and
  thread primitive returns one of them; \<open>thrd_error\<close> is the one that the
  \<^verbatim>\<open>default\<close> branch of \<^verbatim>\<open>_thrd_status_to_errno\<close> catches.
\<close>

datatype thrd_status = thrd_success | thrd_nomem | thrd_timedout | thrd_busy | thrd_error

text \<open>The errno values of \<^verbatim>\<open><errno.h>\<close> (Linux numbering); they are pairwise distinct.\<close>

definition ENOMEM :: int where "ENOMEM = 12"
definition EBUSY :: int where "EBUSY = 16"
definition EINVAL :: int where "EINVAL = 22"
definition ETIMEDOUT :: int where "ETIMEDOUT = 110"
definition ECANCELED :: int where "ECANCELED = 125"

fun thrd_status_to_errno :: "thrd_status \<Rightarrow> int" where
  "thrd_status_to_errno thrd_success = 0"
| "thrd_status_to_errno thrd_nomem = ENOMEM"
| "thrd_status_to_errno thrd_timedout = ETIMEDOUT"
| "thrd_status_to_errno thrd_busy = EBUSY"
| "thrd_status_to_errno thrd_error = - 1"

section \<open>Data model\<close>

text \<open>
  \<^verbatim>\<open>struct _event_t\<close>. The field \<open>mtx_held\<close> stands for \<^verbatim>\<open>mtx\<close>: it tells whether the
  thread whose code is modelled (the caller of the public operation) holds the mutex.
  The condition variable has no state of its own; calls on it are recorded in the trace.
\<close>

record event_t =
  mtx_held :: bool
  signaled :: bool
  is_manual_reset :: bool

text \<open>What a \<^verbatim>\<open>thrd_t\<close> handle refers to: no thread yet, a running proxy, or one that returned.\<close>

datatype thread = NotStarted | Running | Exited int

text \<open>
  \<^verbatim>\<open>struct _event_waiter_t\<close>. \<open>p_event\<close> is the address of the target event;
  \<^verbatim>\<open>p_wait_info\<close> always points to the one rendezvous of the call and is left out.
  The C field \<^verbatim>\<open>done\<close> is called \<open>is_done\<close>.
\<close>

record event_waiter_t =
  thrd :: thread
  p_event :: nat
  joinable :: bool
  canceled :: bool
  is_done :: bool

text \<open>Owner of a mutex or condition variable: the event at an address, or the rendezvous.\<close>

datatype sync = EventSync nat | WaitInfo

text \<open>The calls and stores of the modelled thread, in program order.\<close>

datatype action =
    MtxInit sync | CndInit sync | MtxDestroy sync | CndDestroy sync
  | MtxLock sync | MtxUnlock sync
  | CndSignal sync | CndBroadcast sync | CndWait sync | CndTimedwait sync
  | ThrdCreate nat | ThrdJoin nat
  | SetSignaled nat bool | SetCanceled nat | SetIdx nat
  | Calloc | Free

text \<open>
  The memory the operations work on: the events by address (address \<open>0\<close> is the null
  handle), the array of proxy waiters of the current \<^verbatim>\<open>event_wait_multiple\<close>, the
  cell behind \<^verbatim>\<open>p_idx_signaled_event\<close>, and the trace of the modelled thread.
\<close>

record world =
  events :: "nat \<Rightarrow> event_t"
  waiters :: "nat \<Rightarrow> event_waiter_t"
  idx_signaled_event :: nat
  trace :: "action list"

definition NULL :: nat where "NULL = 0"

text \<open>Outcome of a call: it returns a value, the process is terminated by \<^verbatim>\<open>abort()\<close>
  (\<^verbatim>\<open>CHECK_THRD_ERR\<close>), it dereferences a null handle, or it never returns.\<close>

datatype 'a result = Done 'a | Aborted | Crashed | Blocked

fun rbind :: "'a result \<Rightarrow> ('a \<Rightarrow> 'b result) \<Rightarrow> 'b result" where
  "rbind (Done x) f = f x"
| "rbind Aborted f = Aborted"
| "rbind Crashed f = Crashed"
| "rbind Blocked f = Blocked"

section \<open>Environment\<close>

text \<open>
  The call sites of the fallible primitives in \<^verbatim>\<open>events.c\<close>. The environment fixes the
  status each of them returns, per site, per round of the enclosing loop and per array
  index.
\<close>

datatype site =
    S_init_mtx | S_init_cnd
  | S_signal_lock | S_signal_notify | S_signal_unlock
  | S_reset_lock | S_reset_unlock
  | S_wait_lock | S_wait_cnd | S_wait_unlock
  | S_wm_mtx_init | S_wm_cnd_init | S_wm_create | S_wm_info_lock
  | S_wm_join | S_wm_verify_lock | S_wm_verify_unlock | S_wm_any_lock | S_wm_any_unlock
  | S_wm_info_wait | S_wm_cancel_lock | S_wm_cancel_broadcast | S_wm_cancel_unlock
  | S_wm_info_unlock

text \<open>
  What one wake-up of a proxy out of \<^verbatim>\<open>cnd_wait\<close> meets: the status of the wait, the
  value other threads left in the event's \<open>signaled\<close> flag meanwhile, and the statuses of
  the checked lock and unlock of the rendezvous mutex.
\<close>

record wakeup =
  w_wait :: thrd_status
  w_signaled :: bool
  w_lock :: thrd_status
  w_unlock :: thrd_status

text \<open>The primitive results one run of \<^verbatim>\<open>_event_wait_helper\<close> meets.\<close>

record helper_env =
  h_lock :: thrd_status
  h_wakeups :: "wakeup list"
  h_unlock :: thrd_status
  h_fin_lock :: thrd_status
  h_fin_signal :: thrd_status
  h_fin_unlock :: thrd_status

text \<open>
  What other threads do while the modelled thread sleeps or has not yet taken the
  rendezvous mutex: a store to an event's flag (signal, reset or a consuming wait of
  another thread), or a proxy that runs to its end.
\<close>

datatype env_action = Store nat bool | Finish nat helper_env

record env =
  status :: "site \<Rightarrow> nat \<Rightarrow> nat \<Rightarrow> thrd_status"
  calloc_ok :: bool
  yield :: "nat \<Rightarrow> env_action list"
  at_join :: "nat \<Rightarrow> nat \<Rightarrow> helper_env"

section \<open>Primitive effects on the world\<close>

definition emit :: "action \<Rightarrow> world \<Rightarrow> world" where
  "emit a w = w\<lparr>trace := trace w @ [a]\<rparr>"

definition set_held :: "nat \<Rightarrow> bool \<Rightarrow> world \<Rightarrow> world" where
  "set_held a b w = w\<lparr>events := (events w)(a := (events w a)\<lparr>mtx_held := b\<rparr>)\<rparr>"

definition set_signaled :: "nat \<Rightarrow> bool \<Rightarrow> world \<Rightarrow> world" where
  "set_signaled a b w = w\<lparr>events := (events w)(a := (events w a)\<lparr>signaled := b\<rparr>)\<rparr>"

text \<open>\<^verbatim>\<open>p_event->signaled = b\<close> by the modelled thread.\<close>

definition store_signaled :: "nat \<Rightarrow> bool \<Rightarrow> world \<Rightarrow> world" where
  "store_signaled a b w = emit (SetSignaled a b) (set_signaled a b w)"

text \<open>\<^verbatim>\<open>mtx_lock(&p_event->mtx)\<close> returning \<open>st\<close>: the mutex is taken only on success.\<close>

definition mtx_lock :: "thrd_status \<Rightarrow> nat \<Rightarrow> world \<Rightarrow> world" where
  "mtx_lock st a w =
     emit (MtxLock (EventSync a)) (if st = thrd_success then set_held a True w else w)"

text \<open>\<^verbatim>\<open>mtx_unlock(&p_event->mtx)\<close> returning \<open>st\<close>: the mutex is released only on success.\<close>

definition mtx_unlock :: "thrd_status \<Rightarrow> nat \<Rightarrow> world \<Rightarrow> world" where
  "mtx_unlock st a w =
     emit (MtxUnlock (EventSync a)) (if st = thrd_success then set_held a False w else w)"

text \<open>Stores of other threads; they need the event's mutex, so none lands while the
  modelled thread holds it.\<close>

fun apply_stores :: "env_action list \<Rightarrow> world \<Rightarrow> world" where
  "apply_stores [] w = w"
| "apply_stores (Store a b # as) w =
     apply_stores as (if mtx_held (events w a) then w else set_signaled a b w)"
| "apply_stores (Finish i h # as) w = apply_stores as w"

section \<open>Single-event operations\<close>

text \<open>\<^verbatim>\<open>event_init\<close> (lines 103-120).\<close>

definition event_init :: "env \<Rightarrow> nat \<Rightarrow> bool \<Rightarrow> bool \<Rightarrow> world \<Rightarrow> int \<times> world" where
  "event_init E p manual initial_state w =
     (if p = NULL then (EINVAL, w)
      else
        let st = status E S_init_mtx 0 p; w1 = emit (MtxInit (EventSync p)) w in
        if st = thrd_success then
          (let st2 = status E S_init_cnd 0 p; w2 = emit (CndInit (EventSync p)) w1 in
           if st2 = thrd_success then
             (0, w2\<lparr>events := (events w2)(p := (events w2 p)
                     \<lparr>signaled := initial_state, is_manual_reset := manual\<rparr>)\<rparr>)
           else (thrd_status_to_errno st2, emit (MtxDestroy (EventSync p)) w2))
        else (thrd_status_to_errno st, w1))"

text \<open>\<^verbatim>\<open>event_signal\<close> (lines 129-145).\<close>

definition event_signal :: "env \<Rightarrow> nat \<Rightarrow> world \<Rightarrow> int \<times> world" where
  "event_signal E p w =
     (if p = NULL then (EINVAL, w)
      else
        let st = status E S_signal_lock 0 p; w1 = mtx_lock st p w in
        if st = thrd_success then
          (let w2 = store_signaled p True w1;
               st1 = status E S_signal_notify 0 p;
               w3 = emit (if is_manual_reset (events w2 p)
                          then CndBroadcast (EventSync p) else CndSignal (EventSync p)) w2;
               st2 = status E S_signal_unlock 0 p;
               w4 = mtx_unlock st2 p w3
           in (thrd_status_to_errno (if st1 = thrd_success then st2 else st1), w4))
        else (thrd_status_to_errno st, w1))"

text \<open>\<^verbatim>\<open>event_reset\<close> (lines 147-159).\<close>

definition event_reset :: "env \<Rightarrow> nat \<Rightarrow> world \<Rightarrow> int \<times> world" where
  "event_reset E p w =
     (if p = NULL then (EINVAL, w)
      else
        let st = status E S_reset_lock 0 p; w1 = mtx_lock st p w in
        if st = thrd_success then
          (let w2 = store_signaled p False w1;
               st2 = status E S_reset_unlock 0 p
           in (thrd_status_to_errno st2, mtx_unlock st2 p w2))
        else (thrd_status_to_errno st, w1))"

text \<open>\<^verbatim>\<open>event_pulse\<close> (lines 161-166).\<close>

definition event_pulse :: "env \<Rightarrow> nat \<Rightarrow> world \<Rightarrow> int \<times> world" where
  "event_pulse E p w =
     (case event_signal E p w of
        (err, w1) \<Rightarrow> if err = 0 then event_reset E p w1 else (err, w1))"

text \<open>
  The \<^verbatim>\<open>do ... while\<close> of \<^verbatim>\<open>event_wait\<close> (lines 176-182), entered with the mutex held.
  \<open>timed\<close> tells whether \<^verbatim>\<open>p_time\<close> is non-null; \<open>k\<close> counts the sleeps; the fuel bounds
  them, and a thread still asleep when it runs out never returns. The result is the
  value of \<^verbatim>\<open>thrd_status\<close> at the exit of the loop.
\<close>

fun event_wait_loop :: "env \<Rightarrow> nat \<Rightarrow> bool \<Rightarrow> nat \<Rightarrow> nat \<Rightarrow> world \<Rightarrow> (thrd_status \<times> world) result" where
  "event_wait_loop E p timed 0 k w =
     (if signaled (events w p) then
        Done (thrd_success,
              if \<not> is_manual_reset (events w p) then store_signaled p False w else w)
      else Blocked)"
| "event_wait_loop E p timed (Suc n) k w =
     (if signaled (events w p) then
        Done (thrd_success,
              if \<not> is_manual_reset (events w p) then store_signaled p False w else w)
      else
        let w1 = emit (if timed then CndTimedwait (EventSync p) else CndWait (EventSync p)) w;
            w2 = set_held p True (apply_stores (yield E k) (set_held p False w1));
            st = status E S_wait_cnd k p
        in if st = thrd_success then event_wait_loop E p timed n (Suc k) w2
           else Done (st, w2))"

text \<open>\<^verbatim>\<open>event_wait\<close> (lines 168-190); \<open>p_time\<close> is \<open>None\<close> for a null deadline.\<close>

definition event_wait :: "env \<Rightarrow> nat \<Rightarrow> nat \<Rightarrow> 'time option \<Rightarrow> world \<Rightarrow> (int \<times> world) result" where
  "event_wait E fuel p p_time w =
     (if p = NULL then Done (EINVAL, w)
      else
        let st = status E S_wait_lock 0 p; w1 = mtx_lock st p w in
        if st = thrd_success then
          rbind (event_wait_loop E p (p_time \<noteq> None) fuel 0 w1) (\<lambda>(st1, w2).
            let st2 = status E S_wait_unlock 0 p; w3 = mtx_unlock st2 p w2
            in Done (thrd_status_to_errno (if st1 = thrd_success then st2 else st1), w3))
        else Done (thrd_status_to_errno st, w1))"

section \<open>The proxy waiter\<close>

text \<open>
  The \<^verbatim>\<open>while\<close> of \<^verbatim>\<open>_event_wait_helper\<close> (lines 68-75) for waiter \<open>i\<close> on the event at
  \<open>e\<close>, one list element per return of \<^verbatim>\<open>cnd_wait\<close>. The result is \<^verbatim>\<open>thrd_status\<close> and
  the local \<^verbatim>\<open>signaled\<close> at the exit of the loop. A proxy with no wake-up left sleeps
  forever.
\<close>

fun helper_loop :: "wakeup list \<Rightarrow> nat \<Rightarrow> nat \<Rightarrow> world \<Rightarrow> (thrd_status \<times> bool \<times> world) result" where
  "helper_loop [] i e w = Blocked"
| "helper_loop (k # ks) i e w =
     (if w_wait k \<noteq> thrd_success then Done (w_wait k, False, w)
      else
        let w1 = set_signaled e (w_signaled k) w in
        if w_lock k \<noteq> thrd_success then Aborted
        else
          let c = canceled (waiters w1 i) in
          if w_unlock k \<noteq> thrd_success then Aborted
          else if c then Done (thrd_success, False, w1)
          else if signaled (events w1 e) then Done (thrd_success, True, w1)
          else helper_loop ks i e w1)"

text \<open>
  \<^verbatim>\<open>_event_wait_helper\<close> (lines 59-97), run from its first line to its return while the
  modelled thread stands still. The proxy cannot take an event mutex that the modelled
  thread holds. The exit code is also stored in the thread handle.
\<close>

definition event_wait_helper :: "helper_env \<Rightarrow> nat \<Rightarrow> world \<Rightarrow> (int \<times> world) result" where
  "event_wait_helper h i w =
     (let e = p_event (waiters w i) in
      if mtx_held (events w e) then Blocked
      else
        rbind
          (if h_lock h = thrd_success then
             rbind (if signaled (events w e) then Done (thrd_success, True, w)
                    else helper_loop (h_wakeups h) i e w)
               (\<lambda>(st, sg, w1). Done (if st = thrd_success then h_unlock h else st, sg, w1))
           else Done (h_lock h, False, w))
          (\<lambda>(st, sg, w1).
             if h_fin_lock h \<noteq> thrd_success \<or> h_fin_signal h \<noteq> thrd_success
                \<or> h_fin_unlock h \<noteq> thrd_success then Aborted
             else
               let code = (if st \<noteq> thrd_success then thrd_status_to_errno st
                           else if \<not> sg then ECANCELED else 0)
               in Done (code, w1\<lparr>waiters := (waiters w1)
                          (i := (waiters w1 i)\<lparr>thrd := Exited code, is_done := True\<rparr>)\<rparr>)))"

text \<open>What happens while the modelled thread does not hold the rendezvous mutex. A proxy
  that cannot finish yet stays as it is.\<close>

fun interfere :: "env_action list \<Rightarrow> world \<Rightarrow> world result" where
  "interfere [] w = Done w"
| "interfere (Store a b # as) w =
     interfere as (if mtx_held (events w a) then w else set_signaled a b w)"
| "interfere (Finish i h # as) w =
     (if thrd (waiters w i) = Running then
        (case event_wait_helper h i w of
           Done (c, w1) \<Rightarrow> interfere as w1
         | Aborted \<Rightarrow> Aborted
         | Crashed \<Rightarrow> Crashed
         | Blocked \<Rightarrow> interfere as w)
      else interfere as w)"

text \<open>
  \<^verbatim>\<open>thrd_join\<close> on waiter \<open>i\<close>: it returns once the proxy has returned, with its exit
  code. A proxy still running runs to its end first, on what the environment gives it
  during the join; if that does not end it, the join never returns.
\<close>

definition thrd_join :: "env \<Rightarrow> nat \<Rightarrow> nat \<Rightarrow> world \<Rightarrow> (int \<times> world) result" where
  "thrd_join E t i w =
     (let w1 = emit (ThrdJoin i) w in
      case thrd (waiters w1 i) of
        Exited c \<Rightarrow> Done (c, w1)
      | Running \<Rightarrow> event_wait_helper (at_join E t i) i w1
      | NotStarted \<Rightarrow> Crashed)"

text \<open>\<^verbatim>\<open>mtx_lock\<close> on an event by the coordinator: a \<^verbatim>\<open>mtx_plain\<close> mutex that the caller
  already holds never comes back.\<close>

definition lock_event :: "thrd_status \<Rightarrow> nat \<Rightarrow> world \<Rightarrow> world result" where
  "lock_event st a w = (if mtx_held (events w a) then Blocked else Done (mtx_lock st a w))"

section \<open>The coordinator: \<^verbatim>\<open>event_wait_multiple\<close>\<close>

text \<open>The locals \<^verbatim>\<open>err\<close>, \<^verbatim>\<open>thrd_status\<close> and \<^verbatim>\<open>all_signaled\<close>.\<close>

record frame =
  err :: int
  thrd_status :: thrd_status
  all_signaled :: bool

text \<open>
  The loops over the array run from \<open>i\<close> for \<open>n\<close> more elements; a call starts them
  at \<open>i = 0\<close> with \<open>n = c_events\<close>. \<open>t\<close> is the round of the enclosing loop.
\<close>

text \<open>
  The spawn loop (lines 223-237) up to the first failing \<^verbatim>\<open>thrd_create\<close>, whose index and
  status it returns. A created proxy dereferences its handle, so a null handle ends the
  process.
\<close>

fun spawn :: "env \<Rightarrow> nat \<Rightarrow> (nat \<Rightarrow> nat) \<Rightarrow> nat \<Rightarrow> nat \<Rightarrow> world \<Rightarrow> ((nat \<times> thrd_status) option \<times> world) result" where
  "spawn E t pe 0 i w = Done (None, w)"
| "spawn E t pe (Suc n) i w =
     (let w1 = w\<lparr>waiters := (waiters w)(i := (waiters w i)
                 \<lparr>p_event := pe i, joinable := True, canceled := False, is_done := False\<rparr>)\<rparr>;
          st = status E S_wm_create t i;
          w2 = emit (ThrdCreate i) w1
      in if st \<noteq> thrd_success then Done (Some (i, st), w2)
         else if pe i = NULL then Crashed
         else spawn E t pe n (Suc i)
                (w2\<lparr>waiters := (waiters w2)(i := (waiters w2 i)\<lparr>thrd := Running\<rparr>)\<rparr>))"

text \<open>The joins after a failed \<^verbatim>\<open>thrd_create\<close> (lines 232-233).\<close>

fun join_below :: "env \<Rightarrow> nat \<Rightarrow> nat \<Rightarrow> nat \<Rightarrow> world \<Rightarrow> world result" where
  "join_below E t 0 j w = Done w"
| "join_below E t (Suc n) j w =
     rbind (thrd_join E t j w) (\<lambda>(c, w1). join_below E t n (Suc j) w1)"

text \<open>
  What both scans do with a waiter that is done (lines 251-262 and 298-309): join it
  once. The flag of the result tells whether the join failed or the proxy returned an
  error, that is, whether the code leaves by \<^verbatim>\<open>goto clean_up_threads\<close>.
\<close>

definition join_done :: "env \<Rightarrow> nat \<Rightarrow> nat \<Rightarrow> frame \<Rightarrow> world \<Rightarrow> (bool \<times> frame \<times> world) result" where
  "join_done E t i f w =
     (if joinable (waiters w i) then
        rbind (thrd_join E t i w) (\<lambda>(code, w1).
          let st = status E S_wm_join t i;
              w2 = w1\<lparr>waiters := (waiters w1)(i := (waiters w1 i)\<lparr>joinable := False\<rparr>)\<rparr>
          in if st \<noteq> thrd_success then Done (True, f\<lparr>err := 0, thrd_status := st\<rparr>, w2)
             else Done (code \<noteq> 0, f\<lparr>err := code, thrd_status := st\<rparr>, w2))
      else Done (False, f, w))"

text \<open>
  The scan of \<^verbatim>\<open>wait_all\<close> (lines 247-266). The flag of the result tells whether the scan
  left by \<^verbatim>\<open>goto clean_up_threads\<close>.
\<close>

fun scan_all :: "env \<Rightarrow> nat \<Rightarrow> nat \<Rightarrow> nat \<Rightarrow> frame \<Rightarrow> world \<Rightarrow> (bool \<times> frame \<times> world) result" where
  "scan_all E t 0 i f w = Done (False, f, w)"
| "scan_all E t (Suc n) i f w =
     (if is_done (waiters w i) then
        rbind (join_done E t i f w) (\<lambda>(failed, f1, w1).
          if failed then Done (True, f1, w1) else scan_all E t n (Suc i) f1 w1)
      else scan_all E t n (Suc i) (f\<lparr>all_signaled := False\<rparr>) w)"

text \<open>Group verification, first loop (lines 270-278): the result starts with \<^verbatim>\<open>locked\<close>.\<close>

fun lock_events :: "env \<Rightarrow> nat \<Rightarrow> (nat \<Rightarrow> nat) \<Rightarrow> nat \<Rightarrow> nat \<Rightarrow> frame \<Rightarrow> world \<Rightarrow> (nat \<times> frame \<times> world) result" where
  "lock_events E t pe 0 locked f w = Done (locked, f, w)"
| "lock_events E t pe (Suc n) locked f w =
     (let st = status E S_wm_verify_lock t locked in
      rbind (lock_event st (pe locked) w) (\<lambda>w1.
        if st \<noteq> thrd_success then Done (locked, f\<lparr>thrd_status := st\<rparr>, w1)
        else if \<not> signaled (events w1 (pe locked))
          then Done (locked, f\<lparr>thrd_status := st, all_signaled := False\<rparr>, w1)
        else lock_events E t pe n (Suc locked) (f\<lparr>thrd_status := st\<rparr>) w1))"

text \<open>Group verification, second loop (lines 280-286) over \<open>i < locked\<close>: the result starts
  with \<^verbatim>\<open>thrd_status_2\<close>.\<close>

fun unlock_events :: "env \<Rightarrow> nat \<Rightarrow> (nat \<Rightarrow> nat) \<Rightarrow> bool \<Rightarrow> nat \<Rightarrow> nat \<Rightarrow> thrd_status \<Rightarrow> world \<Rightarrow> thrd_status \<times> world" where
  "unlock_events E t pe a 0 i st2 w = (st2, w)"
| "unlock_events E t pe a (Suc n) i st2 w =
     (let w1 = (if a \<and> \<not> is_manual_reset (events w (pe i))
                then store_signaled (pe i) False w else w);
          st = status E S_wm_verify_unlock t i
      in unlock_events E t pe a n (Suc i) st (mtx_unlock st (pe i) w1))"

text \<open>Group verification (lines 268-292), entered when the scan left \<^verbatim>\<open>all_signaled\<close> true.\<close>

definition verify_group :: "env \<Rightarrow> nat \<Rightarrow> (nat \<Rightarrow> nat) \<Rightarrow> nat \<Rightarrow> frame \<Rightarrow> world \<Rightarrow> (frame \<times> world) result" where
  "verify_group E t pe c f w =
     rbind (lock_events E t pe c 0 f w) (\<lambda>(locked, f1, w1).
       case unlock_events E t pe (all_signaled f1) locked 0 thrd_success w1 of
         (st2, w2) \<Rightarrow>
           Done (if thrd_status f1 = thrd_success then f1\<lparr>thrd_status := st2\<rparr> else f1, w2))"

text \<open>
  Lines 311-316: the index of the winner goes through the out pointer, and an auto-reset
  winner is consumed if its mutex can be taken; the status of the unlock is dropped.
\<close>

definition consume_any :: "env \<Rightarrow> nat \<Rightarrow> (nat \<Rightarrow> nat) \<Rightarrow> nat \<Rightarrow> world \<Rightarrow> world result" where
  "consume_any E t pe i w =
     (let w1 = emit (SetIdx i) (w\<lparr>idx_signaled_event := i\<rparr>) in
      if \<not> is_manual_reset (events w1 (pe i)) then
        (let st = status E S_wm_any_lock t i in
         rbind (lock_event st (pe i) w1) (\<lambda>w2.
           if st = thrd_success then
             Done (mtx_unlock (status E S_wm_any_unlock t i) (pe i)
                     (store_signaled (pe i) False w2))
           else Done w2))
      else Done w1)"

text \<open>
  The scan of \<^verbatim>\<open>wait_any\<close> (lines 294-320). The flag of the result tells whether the scan
  left by \<^verbatim>\<open>goto clean_up_threads\<close>.
\<close>

fun scan_any :: "env \<Rightarrow> nat \<Rightarrow> (nat \<Rightarrow> nat) \<Rightarrow> nat \<Rightarrow> nat \<Rightarrow> frame \<Rightarrow> world \<Rightarrow> (bool \<times> frame \<times> world) result" where
  "scan_any E t pe 0 i f w = Done (False, f, w)"
| "scan_any E t pe (Suc n) i f w =
     (if is_done (waiters w i) then
        rbind (join_done E t i f w) (\<lambda>(failed, f1, w1).
          if failed then Done (True, f1, w1)
          else rbind (consume_any E t pe i w1) (\<lambda>w2. Done (True, f1, w2)))
      else scan_any E t pe n (Suc i) f w)"

text \<open>Teardown, first loop (lines 325-336): cancel every proxy that is not done.\<close>

fun cancel_waiters :: "env \<Rightarrow> nat \<Rightarrow> nat \<Rightarrow> nat \<Rightarrow> world \<Rightarrow> world result" where
  "cancel_waiters E t 0 i w = Done w"
| "cancel_waiters E t (Suc n) i w =
     (if \<not> is_done (waiters w i) then
        (let e = p_event (waiters w i); st = status E S_wm_cancel_lock t i in
         rbind (lock_event st e w) (\<lambda>w1.
           if st \<noteq> thrd_success then Aborted
           else
             let w2 = emit (SetCanceled i)
                        (w1\<lparr>waiters := (waiters w1)(i := (waiters w1 i)\<lparr>canceled := True\<rparr>)\<rparr>);
                 w3 = emit (CndBroadcast (EventSync e)) w2
             in if status E S_wm_cancel_broadcast t i \<noteq> thrd_success then Aborted
                else
                  let st2 = status E S_wm_cancel_unlock t i; w4 = mtx_unlock st2 e w3
                  in if st2 \<noteq> thrd_success then Aborted
                     else cancel_waiters E t n (Suc i) w4))
      else cancel_waiters E t n (Suc i) w)"

text \<open>Teardown, second loop (lines 340-345): join what is still joinable.\<close>

fun join_waiters :: "env \<Rightarrow> nat \<Rightarrow> nat \<Rightarrow> nat \<Rightarrow> world \<Rightarrow> world result" where
  "join_waiters E t 0 i w = Done w"
| "join_waiters E t (Suc n) i w =
     (if joinable (waiters w i) then
        rbind (thrd_join E t i w) (\<lambda>(c, w1). join_waiters E t n (Suc i) w1)
      else join_waiters E t n (Suc i) w)"

text \<open>\<^verbatim>\<open>clean_up_threads\<close> (lines 324-345).\<close>

definition clean_up_threads :: "env \<Rightarrow> nat \<Rightarrow> nat \<Rightarrow> world \<Rightarrow> world result" where
  "clean_up_threads E t c w =
     rbind (cancel_waiters E t c 0 w) (\<lambda>w1.
       let w2 = emit (MtxUnlock WaitInfo) w1 in
       if status E S_wm_info_unlock t 0 \<noteq> thrd_success then Aborted
       else join_waiters E t c 0 w2)"

text \<open>\<^verbatim>\<open>clean_up_wait_info_cnd\<close> to the \<^verbatim>\<open>return\<close> (lines 350-362).\<close>

definition clean_up_wait_info_cnd :: "frame \<Rightarrow> world \<Rightarrow> int \<times> world" where
  "clean_up_wait_info_cnd f w =
     (if err f \<noteq> 0 then err f else thrd_status_to_errno (thrd_status f),
      emit Free (emit (MtxDestroy WaitInfo) (emit (CndDestroy WaitInfo) w)))"

text \<open>
  The body of the \<^verbatim>\<open>do ... while\<close> (lines 245-321) for one round. The flag of the result
  tells whether it left by \<^verbatim>\<open>goto clean_up_threads\<close>.
\<close>

definition scan :: "env \<Rightarrow> nat \<Rightarrow> (nat \<Rightarrow> nat) \<Rightarrow> nat \<Rightarrow> bool \<Rightarrow> frame \<Rightarrow> world \<Rightarrow> (bool \<times> frame \<times> world) result" where
  "scan E t pe c wait_all f w =
     (if wait_all then
        rbind (scan_all E t c 0 (f\<lparr>all_signaled := True\<rparr>) w) (\<lambda>(left, f1, w1).
          if left then Done (True, f1, w1)
          else if all_signaled f1 then
            rbind (verify_group E t pe c f1 w1) (\<lambda>(f2, w2). Done (True, f2, w2))
          else Done (False, f1, w1))
      else scan_any E t pe c 0 f w)"

text \<open>The condition of the \<^verbatim>\<open>do ... while\<close> (line 322): the coordinator sleeps on the
  rendezvous, the others run, and the wait returns its status.\<close>

definition info_wait :: "env \<Rightarrow> nat \<Rightarrow> bool \<Rightarrow> frame \<Rightarrow> world \<Rightarrow> (frame \<times> world) result" where
  "info_wait E t timed f w =
     rbind (interfere (yield E t)
              (emit (if timed then CndTimedwait WaitInfo else CndWait WaitInfo) w))
       (\<lambda>w1. Done (f\<lparr>thrd_status := status E S_wm_info_wait t 0\<rparr>, w1))"

text \<open>
  Lines 222-348 as a loop with two entry points: \<open>Restart\<close> is the label
  \<^verbatim>\<open>restart_wait\<close>, \<open>Scan\<close> the head of the \<^verbatim>\<open>do ... while\<close>. Every round takes one unit
  of fuel; a call that runs out of it has not returned. After a spawn loop that ran to
  its end \<^verbatim>\<open>thrd_status\<close> is \<open>thrd_success\<close>, so the test of line 241 never fires.
\<close>

datatype phase = Restart | Scan

fun wait_rounds :: "env \<Rightarrow> (nat \<Rightarrow> nat) \<Rightarrow> nat \<Rightarrow> bool \<Rightarrow> bool \<Rightarrow> nat \<Rightarrow> nat \<Rightarrow> phase \<Rightarrow> frame \<Rightarrow> world \<Rightarrow> (int \<times> world) result" where
  "wait_rounds E pe c wait_all timed 0 t ph f w = Blocked"
| "wait_rounds E pe c wait_all timed (Suc n) t Restart f w =
     rbind (spawn E t pe c 0 w) (\<lambda>(failure, w1).
       case failure of
         Some (k, st) \<Rightarrow>
           rbind (join_below E t k 0 w1) (\<lambda>w2.
             Done (clean_up_wait_info_cnd (f\<lparr>thrd_status := st\<rparr>) w2))
       | None \<Rightarrow>
           rbind (interfere (yield E t) w1) (\<lambda>w2.
             if status E S_wm_info_lock t 0 \<noteq> thrd_success then Aborted
             else wait_rounds E pe c wait_all timed n (Suc t) Scan
                    (f\<lparr>thrd_status := thrd_success\<rparr>) (emit (MtxLock WaitInfo) w2)))"
| "wait_rounds E pe c wait_all timed (Suc n) t Scan f w =
     rbind (scan E t pe c wait_all f w) (\<lambda>(left, f1, w1).
       rbind (if left then Done (f1, w1) else info_wait E t timed f1 w1) (\<lambda>(f2, w2).
         if \<not> left \<and> thrd_status f2 = thrd_success
         then wait_rounds E pe c wait_all timed n (Suc t) Scan f2 w2
         else
           rbind (clean_up_threads E t c w2) (\<lambda>w3.
             if wait_all \<and> err f2 = 0 \<and> thrd_status f2 = thrd_success \<and> \<not> all_signaled f2
             then wait_rounds E pe c wait_all timed n (Suc t) Restart f2 w3
             else Done (clean_up_wait_info_cnd f2 w3))))"

text \<open>
  \<^verbatim>\<open>event_wait_multiple\<close> (lines 192-363). \<open>p_events\<close> is \<open>None\<close> for a null array pointer
  and else gives the handle at each index; \<open>p_idx_signaled_event\<close> is \<open>None\<close> for a null
  out pointer. \<^verbatim>\<open>calloc\<close> returns zeroed waiters, or fails leaving \<^verbatim>\<open>ENOMEM\<close> in
  \<^verbatim>\<open>errno\<close>, the one error the allocator reports.
\<close>

definition zero_waiter :: event_waiter_t where
  "zero_waiter = \<lparr>thrd = NotStarted, p_event = NULL, joinable = False, canceled = False,
                  is_done = False\<rparr>"

text \<open>Lines 193-194: the store of zero through a non-null out pointer.\<close>

definition zero_idx :: "unit option \<Rightarrow> world \<Rightarrow> world" where
  "zero_idx p_idx_signaled_event w =
     (if p_idx_signaled_event \<noteq> None
      then emit (SetIdx 0) (w\<lparr>idx_signaled_event := 0\<rparr>) else w)"

definition event_wait_multiple :: "env \<Rightarrow> nat \<Rightarrow> (nat \<Rightarrow> nat) option \<Rightarrow> nat \<Rightarrow> bool \<Rightarrow> 'time option \<Rightarrow> unit option \<Rightarrow> world \<Rightarrow> (int \<times> world) result" where
  "event_wait_multiple E fuel p_events c_events wait_all p_time p_idx_signaled_event w =
     (let w0 = zero_idx p_idx_signaled_event w in
      if c_events = 0 then Done (0, w0)
      else
        case p_events of
          None \<Rightarrow> Done (EINVAL, w0)
        | Some pe \<Rightarrow>
            if \<not> wait_all \<and> p_idx_signaled_event = None then Done (EINVAL, w0)
            else if c_events = 1 then event_wait E fuel (pe 0) p_time w0
            else
              let w1 = emit Calloc w0 in
              if \<not> calloc_ok E then Done (ENOMEM, w1)
              else
                let w2 = emit (MtxInit WaitInfo) (w1\<lparr>waiters := (\<lambda>i. zero_waiter)\<rparr>);
                    st = status E S_wm_mtx_init 0 0
                in
                if st \<noteq> thrd_success then Done (thrd_status_to_errno st, emit Free w2)
                else
                  let w3 = emit (CndInit WaitInfo) w2;
                      st2 = status E S_wm_cnd_init 0 0
                  in
                  if st2 \<noteq> thrd_success
                  then Done (thrd_status_to_errno st2, emit Free (emit (MtxDestroy WaitInfo) w3))
                  else wait_rounds E pe c_events wait_all (p_time \<noteq> None) fuel 0 Restart
                         \<lparr>err = 0, thrd_status = thrd_success, all_signaled = False\<rparr> w3)"

section \<open>What the caller observes, and concrete inputs\<close>

text \<open>The return value, the cell behind the out pointer and the trace of a call that
  returned.\<close>

definition observe :: "(int \<times> world) result \<Rightarrow> (int \<times> nat \<times> action list) result" where
  "observe r = rbind r (\<lambda>(c, w). Done (c, idx_signaled_event w, trace w))"

text \<open>An environment in which every primitive succeeds, no other thread interferes and
  a joined proxy gets no wake-up.\<close>

definition env_ok :: env where
  "env_ok = \<lparr>status = (\<lambda>s t i. thrd_success), calloc_ok = True, yield = (\<lambda>t. []),
             at_join = (\<lambda>t i. \<lparr>h_lock = thrd_success, h_wakeups = [], h_unlock = thrd_success,
               h_fin_lock = thrd_success, h_fin_signal = thrd_success, h_fin_unlock = thrd_success\<rparr>)\<rparr>"

text \<open>An event nobody holds, and a world of such events with a stale out cell.\<close>

definition event_of :: "bool \<Rightarrow> bool \<Rightarrow> event_t" where
  "event_of s m = \<lparr>mtx_held = False, signaled = s, is_manual_reset = m\<rparr>"

definition world_of :: "(nat \<Rightarrow> event_t) \<Rightarrow> world" where
  "world_of es = \<lparr>events = es, waiters = (\<lambda>i. zero_waiter), idx_signaled_event = 7, trace = []\<rparr>"

text \<open>The lock of \<^verbatim>\<open>event_signal\<close> fails; everything else succeeds.\<close>

definition env_signal_lock_fails :: env where
  "env_signal_lock_fails =
     env_ok\<lparr>status := (\<lambda>s t i. if s = S_signal_lock then thrd_error else thrd_success)\<rparr>"


text \<open>A proxy run in which every primitive succeeds, with the given wake-ups, and a
  successful wake-up that finds the flag as given.\<close>

definition helper_ok :: "wakeup list \<Rightarrow> helper_env" where
  "helper_ok ws = \<lparr>h_lock = thrd_success, h_wakeups = ws, h_unlock = thrd_success,
     h_fin_lock = thrd_success, h_fin_signal = thrd_success, h_fin_unlock = thrd_success\<rparr>"

definition wakeup_ok :: "bool \<Rightarrow> wakeup" where
  "wakeup_ok s = \<lparr>w_wait = thrd_success, w_signaled = s, w_lock = thrd_success,
                  w_unlock = thrd_success\<rparr>"

text \<open>The second \<^verbatim>\<open>thrd_create\<close> of a call fails; a joined proxy gets the given
  wake-ups.\<close>

definition env_create_fails :: "wakeup list \<Rightarrow> env" where
  "env_create_fails ws =
     \<lparr>status = (\<lambda>s t i. if s = S_wm_create \<and> i = 1 then thrd_nomem else thrd_success),
      calloc_ok = True, yield = (\<lambda>t. []), at_join = (\<lambda>t i. helper_ok ws)\<rparr>"

text \<open>
  While the coordinator sleeps for the first time, another thread signals the event at
  address 2 and the proxy at index 1 runs to its end; a proxy joined in the teardown is
  woken once and finds its event unsignaled. The primitives' statuses are a parameter.
\<close>

definition env_second_signaled :: "(site \<Rightarrow> nat \<Rightarrow> nat \<Rightarrow> thrd_status) \<Rightarrow> env" where
  "env_second_signaled sts =
     \<lparr>status = sts, calloc_ok = True,
      yield = (\<lambda>t. if t = 1 then [Store 2 True, Finish 1 (helper_ok [])] else []),
      at_join = (\<lambda>t i. helper_ok [wakeup_ok False])\<rparr>"

text \<open>Nobody signals, and every wait on the rendezvous times out.\<close>

definition env_timeout :: env where
  "env_timeout =
     \<lparr>status = (\<lambda>s t i. if s = S_wm_info_wait then thrd_timedout else thrd_success),
      calloc_ok = True, yield = (\<lambda>t. []), at_join = (\<lambda>t i. helper_ok [wakeup_ok False])\<rparr>"

text \<open>
  Both proxies find their events signaled and finish before the coordinator takes the
  rendezvous mutex, then another thread consumes the event at address 1. Later that
  event is signaled again and the proxies are ready to run, and every wait on the
  rendezvous times out.
\<close>

definition env_first_consumed :: env where
  "env_first_consumed =
     \<lparr>status = (\<lambda>s t i. if s = S_wm_info_wait then thrd_timedout else thrd_success),
      calloc_ok = True,
      yield = (\<lambda>t. if t = 0
                   then [Finish 0 (helper_ok []), Finish 1 (helper_ok []), Store 1 False]
                   else [Store 1 True, Finish 0 (helper_ok []), Finish 1 (helper_ok [])]),
      at_join = (\<lambda>t i. helper_ok [wakeup_ok False])\<rparr>"

text \<open>The locals on entry to group verification.\<close>

definition frame_all_done :: frame where
  "frame_all_done = \<lparr>err = 0, thrd_status = thrd_success, all_signaled = True\<rparr>"

section \<open>Invariants used in the proofs\<close>

text \<open>No waiter below \<open>c\<close> has been asked to cancel, and none has returned \<open>ECANCELED\<close>.\<close>

definition no_cancel :: "nat \<Rightarrow> world \<Rightarrow> bool" where
  "no_cancel c w \<longleftrightarrow>
     (\<forall>i<c. \<not> canceled (waiters w i) \<and> thrd (waiters w i) \<noteq> Exited ECANCELED)"

text \<open>Two worlds agree on every event's reset policy and on which mutexes are held.\<close>

definition same_locks :: "world \<Rightarrow> world \<Rightarrow> bool" where
  "same_locks w w' \<longleftrightarrow>
     (\<forall>a. is_manual_reset (events w' a) = is_manual_reset (events w a) \<and>
          mtx_held (events w' a) = mtx_held (events w a))"

text \<open>The trace of a world starts with the given actions.\<close>

definition grows :: "action list \<Rightarrow> world \<Rightarrow> bool" where
  "grows p w \<longleftrightarrow> (\<exists>tr. trace w = p @ tr)"

section \<open>Field lemmas\<close>

lemma events_emit [simp]: "events (emit a w) = events w"
  and waiters_emit [simp]: "waiters (emit a w) = waiters w"
  and idx_emit [simp]: "idx_signaled_event (emit a w) = idx_signaled_event w"
  and trace_emit [simp]: "trace (emit a w) = trace w @ [a]"
  by (simp_all add: emit_def)

lemma events_set_held [simp]: "events (set_held a b w) = (events w)(a := (events w a)\<lparr>mtx_held := b\<rparr>)"
  and waiters_set_held [simp]: "waiters (set_held a b w) = waiters w"
  and idx_set_held [simp]: "idx_signaled_event (set_held a b w) = idx_signaled_event w"
  and trace_set_held [simp]: "trace (set_held a b w) = trace w"
  by (simp_all add: set_held_def)

lemma events_set_signaled [simp]: "events (set_signaled a b w) = (events w)(a := (events w a)\<lparr>signaled := b\<rparr>)"
  and waiters_set_signaled [simp]: "waiters (set_signaled a b w) = waiters w"
  and idx_set_signaled [simp]: "idx_signaled_event (set_signaled a b w) = idx_signaled_event w"
  and trace_set_signaled [simp]: "trace (set_signaled a b w) = trace w"
  by (simp_all add: set_signaled_def)

lemma events_store_signaled [simp]: "events (store_signaled a b w) = (events w)(a := (events w a)\<lparr>signaled := b\<rparr>)"
  and waiters_store_signaled [simp]: "waiters (store_signaled a b w) = waiters w"
  and idx_store_signaled [simp]: "idx_signaled_event (store_signaled a b w) = idx_signaled_event w"
  and trace_store_signaled [simp]: "trace (store_signaled a b w) = trace w @ [SetSignaled a b]"
  by (simp_all add: store_signaled_def)

lemma events_mtx_lock [simp]: "events (mtx_lock st a w) = (if st = thrd_success then (events w)(a := (events w a)\<lparr>mtx_held := True\<rparr>) else events w)"
  and waiters_mtx_lock [simp]: "waiters (mtx_lock st a w) = waiters w"
  and idx_mtx_lock [simp]: "idx_signaled_event (mtx_lock st a w) = idx_signaled_event w"
  and trace_mtx_lock [simp]: "trace (mtx_lock st a w) = trace w @ [MtxLock (EventSync a)]"
  by (simp_all add: mtx_lock_def)

lemma events_mtx_unlock [simp]: "events (mtx_unlock st a w) = (if st = thrd_success then (events w)(a := (events w a)\<lparr>mtx_held := False\<rparr>) else events w)"
  and waiters_mtx_unlock [simp]: "waiters (mtx_unlock st a w) = waiters w"
  and idx_mtx_unlock [simp]: "idx_signaled_event (mtx_unlock st a w) = idx_signaled_event w"
  and trace_mtx_unlock [simp]: "trace (mtx_unlock st a w) = trace w @ [MtxUnlock (EventSync a)]"
  by (simp_all add: mtx_unlock_def)


text \<open>The definitions that evaluate a call on a concrete input.\<close>

lemmas evals = observe_def event_wait_multiple_def zero_idx_def env_ok_def world_of_def
      event_of_def NULL_def env_create_fails_def helper_ok_def wakeup_ok_def
      thrd_join_def event_wait_helper_def clean_up_wait_info_cnd_def zero_waiter_def Let_def
      verify_group_def lock_event_def frame_all_done_def env_second_signaled_def env_timeout_def
      env_first_consumed_def
      scan_def join_done_def consume_any_def info_wait_def clean_up_threads_def
      eval_nat_numeral

section \<open>Properties of the single-event operations\<close>


text \<open>
  Claim C5, as amended. \<^verbatim>\<open>event_signal\<close> on a non-null event first locks the event's
  mutex. If the lock succeeds, it stores \<open>True\<close> in \<open>signaled\<close>, then notifies the
  condition variable -- by a broadcast if the event is manual-reset, by a single-waiter
  signal otherwise -- and only then releases the mutex, whatever the notification and
  the unlock return. If the lock fails, it returns the error of the lock, which is not
  success, and neither stores to the flag nor notifies.
\<close>

theorem event_signal_sets_then_notifies:
  assumes "p \<noteq> NULL"
  shows "(status E S_signal_lock 0 p = thrd_success \<longrightarrow>
           signaled (events (snd (event_signal E p w)) p) \<and>
           trace (snd (event_signal E p w)) =
             trace w @ [MtxLock (EventSync p), SetSignaled p True,
                        if is_manual_reset (events w p) then CndBroadcast (EventSync p)
                        else CndSignal (EventSync p),
                        MtxUnlock (EventSync p)]) \<and>
         (status E S_signal_lock 0 p \<noteq> thrd_success \<longrightarrow>
           fst (event_signal E p w) = thrd_status_to_errno (status E S_signal_lock 0 p) \<and>
           fst (event_signal E p w) \<noteq> 0 \<and>
           events (snd (event_signal E p w)) = events w \<and>
           trace (snd (event_signal E p w)) = trace w @ [MtxLock (EventSync p)])"
proof -
  have ok: "signaled (events (snd (event_signal E p w)) p) \<and>
           trace (snd (event_signal E p w)) =
             trace w @ [MtxLock (EventSync p), SetSignaled p True,
                        if is_manual_reset (events w p) then CndBroadcast (EventSync p)
                        else CndSignal (EventSync p),
                        MtxUnlock (EventSync p)]"
    if "status E S_signal_lock 0 p = thrd_success"
    using that assms by (simp add: event_signal_def Let_def)
  have failed: "fst (event_signal E p w) = thrd_status_to_errno (status E S_signal_lock 0 p) \<and>
           fst (event_signal E p w) \<noteq> 0 \<and>
           events (snd (event_signal E p w)) = events w \<and>
           trace (snd (event_signal E p w)) = trace w @ [MtxLock (EventSync p)]"
    if f: "status E S_signal_lock 0 p \<noteq> thrd_success"
  proof -
    from f assms have e: "event_signal E p w =
        (thrd_status_to_errno (status E S_signal_lock 0 p),
         mtx_lock (status E S_signal_lock 0 p) p w)"
      by (simp add: event_signal_def Let_def)
    from f have "thrd_status_to_errno (status E S_signal_lock 0 p) \<noteq> 0"
      by (cases "status E S_signal_lock 0 p")
         (simp_all add: ENOMEM_def ETIMEDOUT_def EBUSY_def)
    with e f show ?thesis by simp
  qed
  from ok failed show ?thesis by blast
qed

theorem event_signal_sets_then_notifies_witness:
  "(1::nat) \<noteq> NULL \<and> status env_ok S_signal_lock 0 1 = thrd_success \<and>
   signaled (events (snd (event_signal env_ok 1 (world_of (\<lambda>a. event_of False True)))) 1) \<and>
   trace (snd (event_signal env_ok 1 (world_of (\<lambda>a. event_of False True)))) =
     [MtxLock (EventSync 1), SetSignaled 1 True, CndBroadcast (EventSync 1), MtxUnlock (EventSync 1)] \<and>
   status env_signal_lock_fails S_signal_lock 0 1 \<noteq> thrd_success \<and>
   fst (event_signal env_signal_lock_fails 1 (world_of (\<lambda>a. event_of False False))) = - 1 \<and>
   trace (snd (event_signal env_signal_lock_fails 1 (world_of (\<lambda>a. event_of False False)))) =
     [MtxLock (EventSync 1)]"
proof -
  have n: "(1::nat) \<noteq> NULL" by (simp add: NULL_def)
  from event_signal_sets_then_notifies [OF n, of env_ok "world_of (\<lambda>a. event_of False True)"]
    event_signal_sets_then_notifies [OF n, of env_signal_lock_fails
      "world_of (\<lambda>a. event_of False False)"]
  show ?thesis
    by (simp add: NULL_def env_ok_def env_signal_lock_fails_def world_of_def event_of_def)
qed

text \<open>
  Claim C5 as stated fails when \<^verbatim>\<open>mtx_lock\<close> fails: on a non-null manual-reset event
  \<^verbatim>\<open>event_signal\<close> returns \<open>-1\<close>, the flag stays false and the condition variable is
  not notified.
\<close>

theorem event_signal_lock_failure_counterexample:
  "(1::nat) \<noteq> NULL \<and>
   fst (event_signal env_signal_lock_fails 1 (world_of (\<lambda>a. event_of False True))) = - 1 \<and>
   \<not> signaled (events (snd (event_signal env_signal_lock_fails 1
                   (world_of (\<lambda>a. event_of False True)))) 1) \<and>
   trace (snd (event_signal env_signal_lock_fails 1 (world_of (\<lambda>a. event_of False True)))) =
     [MtxLock (EventSync 1)]"
  by (simp add: event_signal_def NULL_def env_ok_def env_signal_lock_fails_def world_of_def
      event_of_def Let_def)




section \<open>Properties of the argument checks of \<^verbatim>\<open>event_wait_multiple\<close>\<close>

text \<open>
  Claim C7, as amended. With count one, and with a non-null out pointer when the mode
  is \<^verbatim>\<open>wait_any\<close>, \<^verbatim>\<open>event_wait_multiple\<close> is \<^verbatim>\<open>event_wait\<close> on the single handle with
  the same deadline, for every handle (null included), every deadline and both modes:
  same return value, same effects, after the store of zero through the out pointer.
\<close>

theorem event_wait_multiple_count_one:
  assumes "c_events = 1" and "wait_all \<or> p_idx \<noteq> None"
  shows "event_wait_multiple E fuel (Some pe) c_events wait_all p_time p_idx w =
         event_wait E fuel (pe 0) p_time (zero_idx p_idx w)"
  using assms by (auto simp: event_wait_multiple_def)

theorem event_wait_multiple_count_one_witness:
  "(1::nat) = 1 \<and> (True \<or> (None :: unit option) \<noteq> None) \<and>
   observe (event_wait_multiple env_ok 0 (Some (\<lambda>i. 1)) 1 True (None :: unit option) None
     (world_of (\<lambda>a. event_of True True))) =
   Done (0, 7, [MtxLock (EventSync 1), MtxUnlock (EventSync 1)])"
proof -
  have h: "True \<or> (None :: unit option) \<noteq> None" by simp
  show ?thesis
    by (simp add: event_wait_multiple_count_one [OF refl h] observe_def zero_idx_def event_wait_def
        env_ok_def world_of_def event_of_def NULL_def del: One_nat_def)
qed

text \<open>
  Claim C7 as stated fails in \<^verbatim>\<open>wait_any\<close> mode with a null out pointer: on a signaled
  event \<^verbatim>\<open>event_wait_multiple\<close> with count one returns \<open>EINVAL\<close> and touches nothing,
  where \<^verbatim>\<open>event_wait\<close> returns success.
\<close>

theorem event_wait_multiple_count_one_counterexample:
  "observe (event_wait_multiple env_ok 0 (Some (\<lambda>i. 1)) 1 False (None :: unit option) None
     (world_of (\<lambda>a. event_of True True))) = Done (EINVAL, 7, []) \<and>
   observe (event_wait env_ok 0 1 (None :: unit option) (world_of (\<lambda>a. event_of True True))) =
     Done (0, 7, [MtxLock (EventSync 1), MtxUnlock (EventSync 1)])"
  by (simp add: observe_def event_wait_multiple_def zero_idx_def event_wait_def env_ok_def
      world_of_def event_of_def NULL_def)

text \<open>
  Claim C8. With count zero \<^verbatim>\<open>event_wait_multiple\<close> returns success for every array
  pointer (null included), every deadline and both modes; the result does not depend
  on the array pointer, and the only effect is the store of zero through a non-null out
  pointer.
\<close>

theorem event_wait_multiple_count_zero:
  "event_wait_multiple E fuel p_events 0 wait_all p_time p_idx w = Done (0, zero_idx p_idx w)"
  by (simp add: event_wait_multiple_def)

theorem event_wait_multiple_count_zero_witness:
  "event_wait_multiple env_ok 0 None 0 False (None :: unit option) None
     (world_of (\<lambda>a. event_of False False)) = Done (0, world_of (\<lambda>a. event_of False False))"
  using event_wait_multiple_count_zero [of env_ok 0 None False None None
      "world_of (\<lambda>a. event_of False False)"]
  by (simp add: zero_idx_def)

text \<open>
  Claim C9, as amended. A null handle makes \<^verbatim>\<open>event_init\<close>, \<^verbatim>\<open>event_signal\<close>,
  \<^verbatim>\<open>event_reset\<close>, \<^verbatim>\<open>event_pulse\<close> and \<^verbatim>\<open>event_wait\<close> return \<open>EINVAL\<close>; with a nonzero
  count, \<^verbatim>\<open>event_wait_multiple\<close> returns \<open>EINVAL\<close> for a null array and, in \<^verbatim>\<open>wait_any\<close>
  mode, for a null out pointer.
\<close>

theorem null_arguments_are_invalid:
  "event_init E NULL manual initial_state w = (EINVAL, w) \<and>
   event_signal E NULL w = (EINVAL, w) \<and>
   event_reset E NULL w = (EINVAL, w) \<and>
   event_pulse E NULL w = (EINVAL, w) \<and>
   event_wait E fuel NULL p_time w = Done (EINVAL, w) \<and>
   (c_events \<noteq> 0 \<longrightarrow>
      event_wait_multiple E fuel None c_events wait_all p_time p_idx w =
        Done (EINVAL, zero_idx p_idx w) \<and>
      event_wait_multiple E fuel p_events c_events False p_time None w = Done (EINVAL, w))"
  by (simp add: event_init_def event_signal_def event_reset_def event_pulse_def event_wait_def
      event_wait_multiple_def zero_idx_def EINVAL_def split: option.split)

theorem null_arguments_are_invalid_witness:
  "event_pulse env_ok NULL (world_of (\<lambda>a. event_of False False)) =
     (EINVAL, world_of (\<lambda>a. event_of False False)) \<and>
   (2::nat) \<noteq> 0 \<and>
   event_wait_multiple env_ok 0 (Some (\<lambda>i. Suc i)) 2 False (None :: unit option) None
     (world_of (\<lambda>a. event_of False False)) = Done (EINVAL, world_of (\<lambda>a. event_of False False))"
  using null_arguments_are_invalid [of env_ok False False "world_of (\<lambda>a. event_of False False)" 0
      "None :: unit option" 2 False None "Some (\<lambda>i. Suc i)"]
  by simp

text \<open>
  Claim C9 as stated fails for count zero: in \<^verbatim>\<open>wait_any\<close> mode with a null out pointer
  the call returns success, because the count is tested first.
\<close>

theorem null_out_pointer_count_zero_counterexample:
  "event_wait_multiple env_ok 0 (Some (\<lambda>i. 1)) 0 False (None :: unit option) None
     (world_of (\<lambda>a. event_of False False)) = Done (0, world_of (\<lambda>a. event_of False False))"
  by (simp add: event_wait_multiple_def zero_idx_def)

section \<open>Properties of the coordinator\<close>


lemma rbind_Done_iff [simp]: "rbind m f = Done y \<longleftrightarrow> (\<exists>x. m = Done x \<and> f x = Done y)"
  by (cases m) simp_all

lemma helper_loop_Done:
  "helper_loop ks i e w = Done (st, sg, w1) \<Longrightarrow>
   idx_signaled_event w1 = idx_signaled_event w \<and> trace w1 = trace w \<and>
   waiters w1 = waiters w \<and> same_locks w w1 \<and>
   (st = thrd_success \<and> \<not> sg \<longrightarrow> canceled (waiters w i))"
proof (induction ks arbitrary: w)
  case Nil
  then show ?case by simp
next
  case (Cons k ks)
  show ?case
  proof (cases "w_wait k = thrd_success \<and> w_lock k = thrd_success \<and> w_unlock k = thrd_success
                \<and> \<not> canceled (waiters w i) \<and> \<not> w_signaled k")
    case True
    with Cons.prems have "helper_loop ks i e (set_signaled e False w) = Done (st, sg, w1)"
      by (simp add: Let_def)
    from Cons.IH [OF this] show ?thesis by (simp add: same_locks_def)
  next
    case False
    with Cons.prems show ?thesis
      by (auto simp: Let_def same_locks_def split: if_splits)
  qed
qed

lemma event_wait_helper_Done:
  assumes "event_wait_helper h i w = Done (c, w')"
  shows "\<exists>w1. w' = w1\<lparr>waiters := (waiters w1)(i := (waiters w1 i)\<lparr>thrd := Exited c, is_done := True\<rparr>)\<rparr> \<and>
          idx_signaled_event w1 = idx_signaled_event w \<and> trace w1 = trace w \<and>
          waiters w1 = waiters w \<and> same_locks w w1 \<and>
          (c = ECANCELED \<longrightarrow> canceled (waiters w i))"
proof -
  let ?e = "p_event (waiters w i)"
  from assms have nh: "\<not> mtx_held (events w ?e)"
    by (auto simp: event_wait_helper_def Let_def split: if_splits)
  define r where "r = (if h_lock h = thrd_success then
             rbind (if signaled (events w ?e) then Done (thrd_success, True, w)
                    else helper_loop (h_wakeups h) i ?e w)
               (\<lambda>(st, sg, w1). Done (if st = thrd_success then h_unlock h else st, sg, w1))
           else Done (h_lock h, False, w))"
  from assms nh obtain st sg w1 where r: "r = Done (st, sg, w1)"
    and fin: "h_fin_lock h = thrd_success" "h_fin_signal h = thrd_success" "h_fin_unlock h = thrd_success"
    and c: "c = (if st \<noteq> thrd_success then thrd_status_to_errno st else if \<not> sg then ECANCELED else 0)"
    and w': "w' = w1\<lparr>waiters := (waiters w1)(i := (waiters w1 i)\<lparr>thrd := Exited c, is_done := True\<rparr>)\<rparr>"
    unfolding event_wait_helper_def r_def [symmetric] Let_def
    by (cases r) (auto split: if_splits)
  have keep: "idx_signaled_event w1 = idx_signaled_event w \<and> trace w1 = trace w \<and>
     waiters w1 = waiters w \<and> same_locks w w1 \<and> (st = thrd_success \<and> \<not> sg \<longrightarrow> canceled (waiters w i))"
  proof (cases "h_lock h = thrd_success")
    case False
    with r show ?thesis by (auto simp: r_def same_locks_def)
  next
    case True
    show ?thesis
    proof (cases "signaled (events w ?e)")
      case True
      with \<open>h_lock h = thrd_success\<close> r show ?thesis by (auto simp: r_def same_locks_def)
    next
      case False
      with \<open>h_lock h = thrd_success\<close> r obtain st0 where
        hl: "helper_loop (h_wakeups h) i ?e w = Done (st0, sg, w1)"
        and st: "st = (if st0 = thrd_success then h_unlock h else st0)"
        by (auto simp: r_def)
      from helper_loop_Done [OF hl] st show ?thesis by (auto split: if_splits)
    qed
  qed
  have "c = ECANCELED \<longrightarrow> st = thrd_success \<and> \<not> sg"
    using c by (cases st) (auto simp: ECANCELED_def ENOMEM_def ETIMEDOUT_def EBUSY_def split: if_splits)
  with keep w' show ?thesis by blast
qed


lemma idx_interfere:
  "interfere as w = Done w' \<Longrightarrow> idx_signaled_event w' = idx_signaled_event w"
proof (induction as arbitrary: w)
  case Nil
  then show ?case by simp
next
  case (Cons a as)
  show ?case
  proof (cases a)
    case (Store x y)
    with Cons show ?thesis by (auto split: if_splits)
  next
    case (Finish i h)
    with Cons show ?thesis
      by (auto split: if_splits result.splits dest!: event_wait_helper_Done)
  qed
qed

lemma idx_thrd_join:
  "thrd_join E t i w = Done (c, w') \<Longrightarrow> idx_signaled_event w' = idx_signaled_event w"
  by (auto simp: thrd_join_def Let_def split: thread.splits dest!: event_wait_helper_Done)

lemma idx_lock_event:
  "lock_event st a w = Done w' \<Longrightarrow> idx_signaled_event w' = idx_signaled_event w"
  by (auto simp: lock_event_def split: if_splits)

lemma idx_spawn:
  "spawn E t pe n i w = Done (r, w') \<Longrightarrow> idx_signaled_event w' = idx_signaled_event w"
  by (induction n arbitrary: i w) (auto simp: Let_def split: if_splits)

lemma idx_join_below:
  "join_below E t n j w = Done w' \<Longrightarrow> idx_signaled_event w' = idx_signaled_event w"
  by (induction n arbitrary: j w) (auto dest!: idx_thrd_join)


lemma idx_join_done:
  "join_done E t i f w = Done (l, f', w') \<Longrightarrow> idx_signaled_event w' = idx_signaled_event w"
  by (auto simp: join_done_def Let_def split: if_splits dest!: idx_thrd_join)

lemma idx_scan_all:
  "scan_all E t n i f w = Done (l, f', w') \<Longrightarrow> idx_signaled_event w' = idx_signaled_event w"
  by (induction n arbitrary: i f w) (auto split: if_splits dest!: idx_join_done)

lemma idx_lock_events:
  "lock_events E t pe n k f w = Done (l, f', w') \<Longrightarrow> idx_signaled_event w' = idx_signaled_event w"
proof (induction n arbitrary: k f w)
  case 0
  then show ?case by simp
next
  case (Suc n)
  from Suc.prems obtain w1 where l: "lock_event (status E S_wm_verify_lock t k) (pe k) w = Done w1"
    by (auto simp: Let_def)
  from idx_lock_event [OF l] Suc.prems l Suc.IH show ?case
    by (auto simp: Let_def split: if_splits)
qed

lemma idx_unlock_events:
  "unlock_events E t pe a n i st w = (st', w') \<Longrightarrow> idx_signaled_event w' = idx_signaled_event w"
  by (induction n arbitrary: i st w) (auto simp: Let_def split: if_splits)

lemma idx_verify_group:
  assumes "verify_group E t pe c f w = Done (f', w')"
  shows "idx_signaled_event w' = idx_signaled_event w"
proof -
  from assms obtain locked f1 w1 where
    l: "lock_events E t pe c 0 f w = Done (locked, f1, w1)"
    by (auto simp: verify_group_def)
  obtain st2 w2 where u: "unlock_events E t pe (all_signaled f1) locked 0 thrd_success w1 = (st2, w2)"
    by (cases "unlock_events E t pe (all_signaled f1) locked 0 thrd_success w1")
  from assms l u have "w' = w2" by (simp add: verify_group_def)
  with idx_lock_events [OF l] idx_unlock_events [OF u] show ?thesis by simp
qed

lemma idx_cancel_waiters:
  "cancel_waiters E t n i w = Done w' \<Longrightarrow> idx_signaled_event w' = idx_signaled_event w"
proof (induction n arbitrary: i w)
  case 0
  then show ?case by simp
next
  case (Suc n)
  show ?case
  proof (cases "is_done (waiters w i)")
    case True
    with Suc show ?thesis by simp
  next
    case False
    with Suc.prems obtain w1 where
      l: "lock_event (status E S_wm_cancel_lock t i) (p_event (waiters w i)) w = Done w1"
      by (auto simp: Let_def)
    from idx_lock_event [OF l] Suc.prems False l Suc.IH show ?thesis
      by (auto simp: Let_def split: if_splits)
  qed
qed

lemma idx_join_waiters:
  "join_waiters E t n i w = Done w' \<Longrightarrow> idx_signaled_event w' = idx_signaled_event w"
  by (induction n arbitrary: i w) (auto split: if_splits dest!: idx_thrd_join)

lemma idx_clean_up_threads:
  "clean_up_threads E t c w = Done w' \<Longrightarrow> idx_signaled_event w' = idx_signaled_event w"
  by (auto simp: clean_up_threads_def Let_def split: if_splits
      dest!: idx_cancel_waiters idx_join_waiters)

lemma idx_info_wait:
  "info_wait E t timed f w = Done (f', w') \<Longrightarrow> idx_signaled_event w' = idx_signaled_event w"
  by (auto simp: info_wait_def dest!: idx_interfere)


lemma join_done_cases:
  assumes "join_done E t i f w = Done (failed, f', w')"
  obtains (skip) "\<not> joinable (waiters w i)" "\<not> failed" "f' = f" "w' = w"
  | (joined) code w1 where "joinable (waiters w i)" "thrd_join E t i w = Done (code, w1)"
      "w' = w1\<lparr>waiters := (waiters w1)(i := (waiters w1 i)\<lparr>joinable := False\<rparr>)\<rparr>"
      "f' = f\<lparr>err := (if status E S_wm_join t i = thrd_success then code else 0),
             thrd_status := status E S_wm_join t i\<rparr>"
      "failed \<longleftrightarrow> status E S_wm_join t i \<noteq> thrd_success \<or> code \<noteq> 0"
proof (cases "joinable (waiters w i)")
  case False
  with assms have "\<not> failed" "f' = f" "w' = w" by (simp_all add: join_done_def)
  with False show ?thesis by (rule skip)
next
  case True
  with assms obtain code w1 where j: "thrd_join E t i w = Done (code, w1)"
    by (auto simp: join_done_def)
  with assms True have
    "(if status E S_wm_join t i \<noteq> thrd_success
      then Done (True, f\<lparr>err := 0, thrd_status := status E S_wm_join t i\<rparr>,
                 w1\<lparr>waiters := (waiters w1)(i := (waiters w1 i)\<lparr>joinable := False\<rparr>)\<rparr>)
      else Done (code \<noteq> 0, f\<lparr>err := code, thrd_status := status E S_wm_join t i\<rparr>,
                 w1\<lparr>waiters := (waiters w1)(i := (waiters w1 i)\<lparr>joinable := False\<rparr>)\<rparr>))
     = Done (failed, f', w')"
    by (simp add: join_done_def Let_def)
  then have "w' = w1\<lparr>waiters := (waiters w1)(i := (waiters w1 i)\<lparr>joinable := False\<rparr>)\<rparr>"
    "f' = f\<lparr>err := (if status E S_wm_join t i = thrd_success then code else 0),
             thrd_status := status E S_wm_join t i\<rparr>"
    "failed \<longleftrightarrow> status E S_wm_join t i \<noteq> thrd_success \<or> code \<noteq> 0"
    by (simp_all split: if_splits)
  with True j show ?thesis by (rule joined)
qed

lemma join_done_frame:
  assumes "join_done E t i f w = Done (failed, f', w')"
    and "err f = 0" and "thrd_status f = thrd_success"
  shows "failed \<longleftrightarrow> (err f' \<noteq> 0 \<or> thrd_status f' \<noteq> thrd_success)"
  using assms(1)
proof (cases rule: join_done_cases)
  case skip
  with assms show ?thesis by simp
next
  case (joined code w1)
  then show ?thesis by auto
qed

lemma consume_any_idx:
  "consume_any E t pe i w = Done w' \<Longrightarrow> idx_signaled_event w' = i"
  by (auto simp: consume_any_def Let_def split: if_splits dest!: idx_lock_event)

lemma scan_any_idx:
  assumes "scan_any E t pe n i f w = Done (l, f', w')"
    and "err f = 0" and "thrd_status f = thrd_success"
  shows "(idx_signaled_event w' = idx_signaled_event w \<and>
            (l \<longrightarrow> err f' \<noteq> 0 \<or> thrd_status f' \<noteq> thrd_success) \<and>
            (\<not> l \<longrightarrow> f' = f)) \<or>
         (l \<and> err f' = 0 \<and> thrd_status f' = thrd_success \<and>
            i \<le> idx_signaled_event w' \<and> idx_signaled_event w' < i + n)"
  using assms
proof (induction n arbitrary: i w)
  case 0
  then show ?case by simp
next
  case (Suc n)
  show ?case
  proof (cases "is_done (waiters w i)")
    case False
    with Suc.prems have "scan_any E t pe n (Suc i) f w = Done (l, f', w')" by simp
    from Suc.IH [OF this Suc.prems(2,3)] show ?thesis by auto
  next
    case True
    with Suc.prems obtain failed f1 w1 where
      j: "join_done E t i f w = Done (failed, f1, w1)"
      and r: "(if failed then Done (True, f1, w1)
               else rbind (consume_any E t pe i w1) (\<lambda>w2. Done (True, f1, w2))) = Done (l, f', w')"
      by auto
    note fr = join_done_frame [OF j Suc.prems(2,3)] and ix = idx_join_done [OF j]
    show ?thesis
    proof (cases failed)
      case True
      with r fr ix show ?thesis by auto
    next
      case False
      with r obtain w2 where c: "consume_any E t pe i w1 = Done w2" and e: "l" "f' = f1" "w' = w2"
        by auto
      from consume_any_idx [OF c] e fr False show ?thesis by auto
    qed
  qed
qed


lemma scan_all_err:
  "scan_all E t n i f w = Done (False, f', w') \<Longrightarrow> err f = 0 \<Longrightarrow> err f' = 0"
proof (induction n arbitrary: i f w)
  case 0
  then show ?case by simp
next
  case (Suc n)
  show ?case
  proof (cases "is_done (waiters w i)")
    case False
    with Suc.prems have "scan_all E t n (Suc i) (f\<lparr>all_signaled := False\<rparr>) w = Done (False, f', w')"
      by simp
    from Suc.IH [OF this] Suc.prems show ?thesis by simp
  next
    case True
    with Suc.prems obtain failed f1 w1 where
      j: "join_done E t i f w = Done (failed, f1, w1)"
      and r: "(if failed then Done (True, f1, w1) else scan_all E t n (Suc i) f1 w1)
                = Done (False, f', w')"
      by auto
    from r have nf: "\<not> failed" and s: "scan_all E t n (Suc i) f1 w1 = Done (False, f', w')"
      by (auto split: if_splits)
    from j nf Suc.prems(2) have "err f1 = 0"
      by (cases rule: join_done_cases) auto
    from Suc.IH [OF s this] show ?thesis .
  qed
qed

lemma scan_idx:
  assumes "scan E t pe c wait_all f w = Done (l, f', w')"
    and "err f = 0" and "thrd_status f = thrd_success"
  shows "(idx_signaled_event w' = idx_signaled_event w \<and> (\<not> l \<longrightarrow> err f' = 0) \<and>
            (\<not> wait_all \<and> l \<longrightarrow> err f' \<noteq> 0 \<or> thrd_status f' \<noteq> thrd_success)) \<or>
         (\<not> wait_all \<and> l \<and> err f' = 0 \<and> thrd_status f' = thrd_success \<and>
            idx_signaled_event w' < c)"
proof (cases wait_all)
  case False
  with assms(1) have "scan_any E t pe c 0 f w = Done (l, f', w')" by (simp add: scan_def)
  from scan_any_idx [OF this assms(2,3)] False assms(2) show ?thesis by auto
next
  case True
  with assms(1) obtain l1 f1 w1 where
    s: "scan_all E t c 0 (f\<lparr>all_signaled := True\<rparr>) w = Done (l1, f1, w1)"
    and r: "(if l1 then Done (True, f1, w1)
             else if all_signaled f1 then
               rbind (verify_group E t pe c f1 w1) (\<lambda>(f2, w2). Done (True, f2, w2))
             else Done (False, f1, w1)) = Done (l, f', w')"
    by (auto simp: scan_def)
  have i1: "idx_signaled_event w1 = idx_signaled_event w" by (rule idx_scan_all [OF s])
  show ?thesis
  proof (cases l)
    case True
    with r have "idx_signaled_event w' = idx_signaled_event w1"
      by (auto split: if_splits dest!: idx_verify_group)
    with i1 True \<open>wait_all\<close> show ?thesis by simp
  next
    case False
    with r have e: "\<not> l1" "f' = f1" "w' = w1" by (auto split: if_splits)
    with s scan_all_err [of E t c 0 "f\<lparr>all_signaled := True\<rparr>" w f1 w1] assms(2)
    have "err f' = 0" by simp
    with i1 e False show ?thesis by simp
  qed
qed

lemma thrd_status_to_errno_zero [simp]: "thrd_status_to_errno st = 0 \<longleftrightarrow> st = thrd_success"
  by (cases st) (simp_all add: ENOMEM_def ETIMEDOUT_def EBUSY_def)

lemma wait_rounds_idx:
  "wait_rounds E pe c wait_all timed fuel t ph f w = Done (r, w') \<Longrightarrow> err f = 0 \<Longrightarrow>
   (ph = Scan \<longrightarrow> thrd_status f = thrd_success) \<Longrightarrow>
   idx_signaled_event w' = idx_signaled_event w \<or>
   (\<not> wait_all \<and> r = 0 \<and> idx_signaled_event w' < c)"
proof (induction fuel arbitrary: t ph f w)
  case 0
  then show ?case by simp
next
  case (Suc n)
  show ?case
  proof (cases ph)
    case Restart
    with Suc.prems(1) obtain failure w1 where
      sp: "spawn E t pe c 0 w = Done (failure, w1)"
      and r: "(case failure of
         Some (k, st) \<Rightarrow>
           rbind (join_below E t k 0 w1) (\<lambda>w2.
             Done (clean_up_wait_info_cnd (f\<lparr>thrd_status := st\<rparr>) w2))
       | None \<Rightarrow>
           rbind (interfere (yield E t) w1) (\<lambda>w2.
             if status E S_wm_info_lock t 0 \<noteq> thrd_success then Aborted
             else wait_rounds E pe c wait_all timed n (Suc t) Scan
                    (f\<lparr>thrd_status := thrd_success\<rparr>) (emit (MtxLock WaitInfo) w2))) = Done (r, w')"
      by auto
    note i1 = idx_spawn [OF sp]
    show ?thesis
    proof (cases failure)
      case None
      with r obtain w2 where
        i: "interfere (yield E t) w1 = Done w2"
        and w: "wait_rounds E pe c wait_all timed n (Suc t) Scan
                  (f\<lparr>thrd_status := thrd_success\<rparr>) (emit (MtxLock WaitInfo) w2) = Done (r, w')"
        by (auto split: if_splits)
      from Suc.IH [OF w] Suc.prems(2) idx_interfere [OF i] i1 show ?thesis by simp
    next
      case (Some a)
      obtain k st where a: "a = (k, st)" by (cases a)
      with Some r obtain w2 where j: "join_below E t k 0 w1 = Done w2"
        and e: "w' = snd (clean_up_wait_info_cnd (f\<lparr>thrd_status := st\<rparr>) w2)"
        by auto
      from idx_join_below [OF j] i1 e show ?thesis by (simp add: clean_up_wait_info_cnd_def)
    qed
  next
    case Scan
    with Suc.prems have ts: "thrd_status f = thrd_success" by simp
    from Scan Suc.prems(1) obtain l f1 w1 f2 w2 where
      sc: "scan E t pe c wait_all f w = Done (l, f1, w1)"
      and iw: "(if l then Done (f1, w1) else info_wait E t timed f1 w1) = Done (f2, w2)"
      and r: "(if \<not> l \<and> thrd_status f2 = thrd_success
         then wait_rounds E pe c wait_all timed n (Suc t) Scan f2 w2
         else
           rbind (clean_up_threads E t c w2) (\<lambda>w3.
             if wait_all \<and> err f2 = 0 \<and> thrd_status f2 = thrd_success \<and> \<not> all_signaled f2
             then wait_rounds E pe c wait_all timed n (Suc t) Restart f2 w3
             else Done (clean_up_wait_info_cnd f2 w3))) = Done (r, w')"
      by auto
    note si = scan_idx [OF sc Suc.prems(2) ts]
    have i2: "idx_signaled_event w2 = idx_signaled_event w1" and e2: "err f2 = err f1"
      and l2: "l \<longrightarrow> f2 = f1"
      using iw by (auto simp: info_wait_def split: if_splits dest!: idx_interfere)
    show ?thesis
    proof (cases "\<not> l \<and> thrd_status f2 = thrd_success")
      case True
      with r have w: "wait_rounds E pe c wait_all timed n (Suc t) Scan f2 w2 = Done (r, w')"
        by simp
      from True si e2 have "err f2 = 0" by auto
      from Suc.IH [OF w this] True have
        "idx_signaled_event w' = idx_signaled_event w2 \<or>
         (\<not> wait_all \<and> r = 0 \<and> idx_signaled_event w' < c)" by simp
      with i2 si True show ?thesis by auto
    next
      case False
      with r obtain w3 where
        cl: "clean_up_threads E t c w2 = Done w3"
        and r3: "(if wait_all \<and> err f2 = 0 \<and> thrd_status f2 = thrd_success \<and> \<not> all_signaled f2
             then wait_rounds E pe c wait_all timed n (Suc t) Restart f2 w3
             else Done (clean_up_wait_info_cnd f2 w3)) = Done (r, w')"
        by auto
      note i3 = idx_clean_up_threads [OF cl]
      show ?thesis
      proof (cases "wait_all \<and> err f2 = 0 \<and> thrd_status f2 = thrd_success \<and> \<not> all_signaled f2")
        case True
        with r3 have w: "wait_rounds E pe c wait_all timed n (Suc t) Restart f2 w3 = Done (r, w')"
          by simp
        from Suc.IH [OF w] True have
          "idx_signaled_event w' = idx_signaled_event w3 \<or>
           (\<not> wait_all \<and> r = 0 \<and> idx_signaled_event w' < c)" by simp
        with True i3 i2 si show ?thesis by auto
      next
        case nr: False
        with r3 have e: "r = fst (clean_up_wait_info_cnd f2 w3)"
          "w' = snd (clean_up_wait_info_cnd f2 w3)" by auto
        then have iw': "idx_signaled_event w' = idx_signaled_event w3"
          by (simp add: clean_up_wait_info_cnd_def)
        from si show ?thesis
        proof
          assume "idx_signaled_event w1 = idx_signaled_event w \<and> (\<not> l \<longrightarrow> err f1 = 0) \<and>
            (\<not> wait_all \<and> l \<longrightarrow> err f1 \<noteq> 0 \<or> thrd_status f1 \<noteq> thrd_success)"
          with iw' i3 i2 show ?thesis by simp
        next
          assume s: "\<not> wait_all \<and> l \<and> err f1 = 0 \<and> thrd_status f1 = thrd_success \<and>
            idx_signaled_event w1 < c"
          with l2 e have "r = 0" by (simp add: clean_up_wait_info_cnd_def)
          with s iw' i3 i2 show ?thesis by simp
        qed
      qed
    qed
  qed
qed


lemma idx_apply_stores [simp]:
  "idx_signaled_event (apply_stores as w) = idx_signaled_event w"
proof (induction as arbitrary: w)
  case Nil
  then show ?case by simp
next
  case (Cons a as)
  then show ?case by (cases a) simp_all
qed

lemma idx_event_wait_loop:
  "event_wait_loop E p timed fuel k w = Done (st, w') \<Longrightarrow>
   idx_signaled_event w' = idx_signaled_event w"
proof (induction fuel arbitrary: k w)
  case 0
  then show ?case by (auto split: if_splits)
next
  case (Suc n)
  show ?case
  proof (cases "signaled (events w p)")
    case True
    with Suc.prems show ?thesis by (auto split: if_splits)
  next
    case False
    with Suc.prems Suc.IH show ?thesis
      by (auto simp: Let_def split: if_splits)
  qed
qed

lemma idx_event_wait:
  "event_wait E fuel p p_time w = Done (r, w') \<Longrightarrow> idx_signaled_event w' = idx_signaled_event w"
  by (auto simp: event_wait_def Let_def split: if_splits dest!: idx_event_wait_loop)

lemma event_wait_multiple_cases:
  assumes "event_wait_multiple E fuel p_events c_events wait_all p_time p_idx w = Done (r, w')"
  obtains (zero) "c_events = 0" "r = 0" "w' = zero_idx p_idx w"
  | (invalid) "c_events \<noteq> 0" "r = EINVAL" "w' = zero_idx p_idx w"
  | (one) pe where "p_events = Some pe" "c_events = 1"
      "event_wait E fuel (pe 0) p_time (zero_idx p_idx w) = Done (r, w')"
  | (init_failed) st where "2 \<le> c_events"
      "r = ENOMEM \<or> (r = thrd_status_to_errno st \<and> st \<noteq> thrd_success)"
      "idx_signaled_event w' = idx_signaled_event (zero_idx p_idx w)"
  | (rounds) pe w3 where "p_events = Some pe" "2 \<le> c_events" "wait_all \<or> p_idx \<noteq> None"
      "idx_signaled_event w3 = idx_signaled_event (zero_idx p_idx w)"
      "wait_rounds E pe c_events wait_all (p_time \<noteq> None) fuel 0 Restart
         \<lparr>err = 0, thrd_status = thrd_success, all_signaled = False\<rparr> w3 = Done (r, w')"
proof (cases "c_events = 0")
  case True
  with assms have "r = 0" "w' = zero_idx p_idx w" by (simp_all add: event_wait_multiple_def)
  with True show ?thesis by (rule zero)
next
  case c0: False
  show ?thesis
  proof (cases "p_events = None \<or> (\<not> wait_all \<and> p_idx = None)")
    case True
    with assms c0 have "r = EINVAL" "w' = zero_idx p_idx w"
      by (auto simp: event_wait_multiple_def Let_def split: option.splits)
    with c0 show ?thesis by (rule invalid)
  next
    case False
    then obtain pe where pe: "p_events = Some pe" and v: "wait_all \<or> p_idx \<noteq> None" by auto
    show ?thesis
    proof (cases "c_events = 1")
      case True
      with assms pe v have "event_wait E fuel (pe 0) p_time (zero_idx p_idx w) = Done (r, w')"
        by (auto simp: event_wait_multiple_def Let_def)
      with pe True show ?thesis by (rule one)
    next
      case c1: False
      with c0 have c2: "2 \<le> c_events" by simp
      let ?w1 = "emit Calloc (zero_idx p_idx w)"
      let ?w2 = "emit (MtxInit WaitInfo) (?w1\<lparr>waiters := (\<lambda>i. zero_waiter)\<rparr>)"
      let ?w3 = "emit (CndInit WaitInfo) ?w2"
      show ?thesis
      proof (cases "calloc_ok E")
        case False
        with assms pe v c0 c1 have "r = ENOMEM \<or> (r = thrd_status_to_errno thrd_success \<and> thrd_success \<noteq> thrd_success)"
          "idx_signaled_event w' = idx_signaled_event (zero_idx p_idx w)"
          by (auto simp: event_wait_multiple_def Let_def)
        with c2 show ?thesis by (rule init_failed)
      next
        case ok: True
        show ?thesis
        proof (cases "status E S_wm_mtx_init 0 0 = thrd_success")
          case False
          with assms pe v c0 c1 ok have
            "r = ENOMEM \<or> (r = thrd_status_to_errno (status E S_wm_mtx_init 0 0) \<and>
               status E S_wm_mtx_init 0 0 \<noteq> thrd_success)"
            "idx_signaled_event w' = idx_signaled_event (zero_idx p_idx w)"
            by (auto simp: event_wait_multiple_def Let_def)
          with c2 show ?thesis by (rule init_failed)
        next
          case m: True
          show ?thesis
          proof (cases "status E S_wm_cnd_init 0 0 = thrd_success")
            case False
            with assms pe v c0 c1 ok m have
              "r = ENOMEM \<or> (r = thrd_status_to_errno (status E S_wm_cnd_init 0 0) \<and>
                 status E S_wm_cnd_init 0 0 \<noteq> thrd_success)"
              "idx_signaled_event w' = idx_signaled_event (zero_idx p_idx w)"
              by (auto simp: event_wait_multiple_def Let_def)
            with c2 show ?thesis by (rule init_failed)
          next
            case True
            with assms pe v c0 c1 ok m have
              "wait_rounds E pe c_events wait_all (p_time \<noteq> None) fuel 0 Restart
                 \<lparr>err = 0, thrd_status = thrd_success, all_signaled = False\<rparr> ?w3 = Done (r, w')"
              by (auto simp: event_wait_multiple_def Let_def)
            moreover have "idx_signaled_event ?w3 = idx_signaled_event (zero_idx p_idx w)" by simp
            ultimately show ?thesis using pe c2 v by (intro rounds [of pe ?w3]) auto
          qed
        qed
      qed
    qed
  qed
qed

lemma grows_emit [simp]: "grows p w \<Longrightarrow> grows p (emit a w)"
  by (auto simp: grows_def)

lemma grows_updates [simp]:
  "grows p (w\<lparr>waiters := ws\<rparr>) = grows p w"
  "grows p (w\<lparr>events := es\<rparr>) = grows p w"
  "grows p (w\<lparr>idx_signaled_event := n\<rparr>) = grows p w"
  "grows p (set_signaled a b w) = grows p w"
  "grows p (set_held a b w) = grows p w"
  by (simp_all add: grows_def)

lemma grows_prims [simp]:
  "grows p w \<Longrightarrow> grows p (store_signaled a b w)"
  "grows p w \<Longrightarrow> grows p (mtx_lock st a w)"
  "grows p w \<Longrightarrow> grows p (mtx_unlock st a w)"
  by (simp_all add: store_signaled_def mtx_lock_def mtx_unlock_def)

lemma grows_same_trace: "trace w' = trace w \<Longrightarrow> grows p w \<Longrightarrow> grows p w'"
  by (simp add: grows_def)

lemma grows_apply_stores [simp]: "grows p (apply_stores as w) = grows p w"
proof (induction as arbitrary: w)
  case Nil
  then show ?case by simp
next
  case (Cons a as)
  then show ?case by (cases a) simp_all
qed

lemma grows_event_wait_helper:
  "event_wait_helper h i w = Done (c, w') \<Longrightarrow> grows p w \<Longrightarrow> grows p w'"
  by (auto dest!: event_wait_helper_Done simp: grows_def)

lemma grows_interfere:
  "interfere as w = Done w' \<Longrightarrow> grows p w \<Longrightarrow> grows p w'"
proof (induction as arbitrary: w)
  case Nil
  then show ?case by simp
next
  case (Cons a as)
  show ?case
  proof (cases a)
    case (Store x y)
    with Cons.prems have "interfere as (if mtx_held (events w x) then w else set_signaled x y w) = Done w'"
      by simp
    moreover from Cons.prems have "grows p (if mtx_held (events w x) then w else set_signaled x y w)"
      by simp
    ultimately show ?thesis by (rule Cons.IH)
  next
    case (Finish i h)
    show ?thesis
    proof (cases "thrd (waiters w i) = Running")
      case False
      with Finish Cons.prems have "interfere as w = Done w'" by simp
      then show ?thesis using Cons.prems(2) by (rule Cons.IH)
    next
      case True
      show ?thesis
      proof (cases "event_wait_helper h i w")
        case (Done x)
        obtain code w1 where x: "x = (code, w1)" by (cases x)
        with Done True Finish Cons.prems have "interfere as w1 = Done w'" by simp
        moreover from grows_event_wait_helper Done x Cons.prems(2) have "grows p w1" by blast
        ultimately show ?thesis by (rule Cons.IH)
      next
        case Blocked
        with True Finish Cons.prems have "interfere as w = Done w'" by simp
        then show ?thesis using Cons.prems(2) by (rule Cons.IH)
      qed (use True Finish Cons.prems in simp_all)
    qed
  qed
qed

lemma grows_thrd_join:
  "thrd_join E t i w = Done (c, w') \<Longrightarrow> grows p w \<Longrightarrow> grows p w'"
  by (auto simp: thrd_join_def Let_def split: thread.splits
      intro: grows_event_wait_helper [where w = "emit (ThrdJoin i) w"])

lemma grows_lock_event:
  "lock_event st a w = Done w' \<Longrightarrow> grows p w \<Longrightarrow> grows p w'"
  by (auto simp: lock_event_def split: if_splits)

lemma grows_spawn:
  "spawn E t pe n i w = Done (r, w') \<Longrightarrow> grows p w \<Longrightarrow> grows p w'"
proof (induction n arbitrary: i w)
  case 0
  then show ?case by simp
next
  case (Suc n)
  let ?w2 = "emit (ThrdCreate i) (w\<lparr>waiters := (waiters w)(i := (waiters w i)
                 \<lparr>p_event := pe i, joinable := True, canceled := False, is_done := False\<rparr>)\<rparr>)"
  let ?w3 = "?w2\<lparr>waiters := (waiters ?w2)(i := (waiters ?w2 i)\<lparr>thrd := Running\<rparr>)\<rparr>"
  from Suc.prems(2) have g: "grows p ?w2" "grows p ?w3" by simp_all
  show ?case
  proof (cases "status E S_wm_create t i = thrd_success")
    case False
    with Suc.prems(1) g show ?thesis by (auto simp: Let_def)
  next
    case True
    with Suc.prems(1) have "spawn E t pe n (Suc i) ?w3 = Done (r, w')"
      by (simp add: Let_def split: if_splits)
    from Suc.IH [OF this g(2)] show ?thesis .
  qed
qed

lemma grows_join_below:
  "join_below E t n j w = Done w' \<Longrightarrow> grows p w \<Longrightarrow> grows p w'"
proof (induction n arbitrary: j w)
  case 0
  then show ?case by simp
next
  case (Suc n)
  from Suc.prems(1) obtain c w1 where j: "thrd_join E t j w = Done (c, w1)"
    and r: "join_below E t n (Suc j) w1 = Done w'" by auto
  from Suc.IH [OF r grows_thrd_join [OF j Suc.prems(2)]] show ?case .
qed

lemma grows_join_done:
  assumes "join_done E t i f w = Done (l, f', w')" and "grows p w"
  shows "grows p w'"
  using assms(1)
proof (cases rule: join_done_cases)
  case skip
  with assms show ?thesis by simp
next
  case (joined code w1)
  with grows_thrd_join [OF joined(2) assms(2)] show ?thesis by simp
qed

lemma grows_scan_all:
  "scan_all E t n i f w = Done (l, f', w') \<Longrightarrow> grows p w \<Longrightarrow> grows p w'"
proof (induction n arbitrary: i f w)
  case 0
  then show ?case by simp
next
  case (Suc n)
  show ?case
  proof (cases "is_done (waiters w i)")
    case False
    with Suc.prems have "scan_all E t n (Suc i) (f\<lparr>all_signaled := False\<rparr>) w = Done (l, f', w')"
      by simp
    from Suc.IH [OF this Suc.prems(2)] show ?thesis .
  next
    case True
    with Suc.prems obtain failed f1 w1 where
      j: "join_done E t i f w = Done (failed, f1, w1)"
      and r: "(if failed then Done (True, f1, w1) else scan_all E t n (Suc i) f1 w1)
                = Done (l, f', w')"
      by auto
    note g1 = grows_join_done [OF j Suc.prems(2)]
    show ?thesis
    proof (cases failed)
      case True
      with r g1 show ?thesis by simp
    next
      case False
      with r have "scan_all E t n (Suc i) f1 w1 = Done (l, f', w')" by simp
      from Suc.IH [OF this g1] show ?thesis .
    qed
  qed
qed

lemma grows_lock_events:
  "lock_events E t pe n k f w = Done (l, f', w') \<Longrightarrow> grows p w \<Longrightarrow> grows p w'"
proof (induction n arbitrary: k f w)
  case 0
  then show ?case by simp
next
  case (Suc n)
  from Suc.prems obtain w1 where l: "lock_event (status E S_wm_verify_lock t k) (pe k) w = Done w1"
    by (auto simp: Let_def)
  note g1 = grows_lock_event [OF l Suc.prems(2)]
  show ?case
  proof (cases "status E S_wm_verify_lock t k = thrd_success \<and> signaled (events w1 (pe k))")
    case False
    with Suc.prems(1) l g1 show ?thesis by (auto simp: Let_def split: if_splits)
  next
    case True
    with Suc.prems(1) l have
      "lock_events E t pe n (Suc k) (f\<lparr>thrd_status := status E S_wm_verify_lock t k\<rparr>) w1
         = Done (l, f', w')"
      by (simp add: Let_def)
    from Suc.IH [OF this g1] show ?thesis .
  qed
qed

lemma grows_unlock_events:
  "unlock_events E t pe a n i st w = (st', w') \<Longrightarrow> grows p w \<Longrightarrow> grows p w'"
proof (induction n arbitrary: i st w)
  case 0
  then show ?case by simp
next
  case (Suc n)
  let ?w1 = "if a \<and> \<not> is_manual_reset (events w (pe i)) then store_signaled (pe i) False w else w"
  from Suc.prems(1) have
    "unlock_events E t pe a n (Suc i) (status E S_wm_verify_unlock t i)
       (mtx_unlock (status E S_wm_verify_unlock t i) (pe i) ?w1) = (st', w')"
    by (simp add: Let_def)
  moreover from Suc.prems(2) have
    "grows p (mtx_unlock (status E S_wm_verify_unlock t i) (pe i) ?w1)" by simp
  ultimately show ?case by (rule Suc.IH)
qed

lemma grows_verify_group:
  assumes "verify_group E t pe c f w = Done (f', w')" and "grows p w"
  shows "grows p w'"
proof -
  from assms obtain locked f1 w1 where
    l: "lock_events E t pe c 0 f w = Done (locked, f1, w1)"
    by (auto simp: verify_group_def)
  obtain st2 w2 where u: "unlock_events E t pe (all_signaled f1) locked 0 thrd_success w1 = (st2, w2)"
    by (cases "unlock_events E t pe (all_signaled f1) locked 0 thrd_success w1")
  from assms l u have "w' = w2" by (simp add: verify_group_def)
  with grows_unlock_events [OF u grows_lock_events [OF l assms(2)]] show ?thesis by simp
qed

lemma grows_consume_any:
  "consume_any E t pe i w = Done w' \<Longrightarrow> grows p w \<Longrightarrow> grows p w'"
  by (auto simp: consume_any_def lock_event_def Let_def split: if_splits)

lemma grows_scan_any:
  "scan_any E t pe n i f w = Done (l, f', w') \<Longrightarrow> grows p w \<Longrightarrow> grows p w'"
proof (induction n arbitrary: i w)
  case 0
  then show ?case by simp
next
  case (Suc n)
  show ?case
  proof (cases "is_done (waiters w i)")
    case False
    with Suc.prems have "scan_any E t pe n (Suc i) f w = Done (l, f', w')" by simp
    from Suc.IH [OF this Suc.prems(2)] show ?thesis .
  next
    case True
    with Suc.prems obtain failed f1 w1 where
      j: "join_done E t i f w = Done (failed, f1, w1)"
      and r: "(if failed then Done (True, f1, w1)
               else rbind (consume_any E t pe i w1) (\<lambda>w2. Done (True, f1, w2))) = Done (l, f', w')"
      by auto
    note g1 = grows_join_done [OF j Suc.prems(2)]
    show ?thesis
    proof (cases failed)
      case True
      with r g1 show ?thesis by simp
    next
      case False
      with r obtain w2 where c: "consume_any E t pe i w1 = Done w2" and "w' = w2" by auto
      with grows_consume_any [OF c g1] show ?thesis by simp
    qed
  qed
qed

lemma grows_scan:
  assumes "scan E t pe c wait_all f w = Done (l, f', w')" and "grows p w"
  shows "grows p w'"
proof (cases wait_all)
  case False
  with assms(1) have "scan_any E t pe c 0 f w = Done (l, f', w')" by (simp add: scan_def)
  from grows_scan_any [OF this assms(2)] show ?thesis .
next
  case True
  with assms(1) obtain l1 f1 w1 where
    s: "scan_all E t c 0 (f\<lparr>all_signaled := True\<rparr>) w = Done (l1, f1, w1)"
    and r: "(if l1 then Done (True, f1, w1)
             else if all_signaled f1 then
               rbind (verify_group E t pe c f1 w1) (\<lambda>(f2, w2). Done (True, f2, w2))
             else Done (False, f1, w1)) = Done (l, f', w')"
    by (auto simp: scan_def)
  note g1 = grows_scan_all [OF s assms(2)]
  show ?thesis
  proof (cases "\<not> l1 \<and> all_signaled f1")
    case False
    with r g1 show ?thesis by (auto split: if_splits)
  next
    case True
    with r have "verify_group E t pe c f1 w1 = Done (f', w')" by auto
    from grows_verify_group [OF this g1] show ?thesis .
  qed
qed


lemma grows_cancel_waiters:
  "cancel_waiters E t n i w = Done w' \<Longrightarrow> grows p w \<Longrightarrow> grows p w'"
proof (induction n arbitrary: i w)
  case 0
  then show ?case by simp
next
  case (Suc n)
  show ?case
  proof (cases "is_done (waiters w i)")
    case True
    with Suc.prems have "cancel_waiters E t n (Suc i) w = Done w'" by simp
    from Suc.IH [OF this Suc.prems(2)] show ?thesis .
  next
    case False
    let ?e = "p_event (waiters w i)"
    from False Suc.prems obtain w1 where
      l: "lock_event (status E S_wm_cancel_lock t i) ?e w = Done w1"
      by (auto simp: Let_def)
    let ?w3 = "emit (CndBroadcast (EventSync ?e)) (emit (SetCanceled i)
                 (w1\<lparr>waiters := (waiters w1)(i := (waiters w1 i)\<lparr>canceled := True\<rparr>)\<rparr>))"
    let ?w4 = "mtx_unlock (status E S_wm_cancel_unlock t i) ?e ?w3"
    from False Suc.prems(1) l have "cancel_waiters E t n (Suc i) ?w4 = Done w'"
      by (simp add: Let_def split: if_splits)
    moreover from grows_lock_event [OF l Suc.prems(2)] have "grows p ?w4" by simp
    ultimately show ?thesis by (rule Suc.IH)
  qed
qed

lemma grows_join_waiters:
  "join_waiters E t n i w = Done w' \<Longrightarrow> grows p w \<Longrightarrow> grows p w'"
proof (induction n arbitrary: i w)
  case 0
  then show ?case by simp
next
  case (Suc n)
  show ?case
  proof (cases "joinable (waiters w i)")
    case False
    with Suc.prems have "join_waiters E t n (Suc i) w = Done w'" by simp
    from Suc.IH [OF this Suc.prems(2)] show ?thesis .
  next
    case True
    with Suc.prems(1) obtain c w1 where j: "thrd_join E t i w = Done (c, w1)"
      and r: "join_waiters E t n (Suc i) w1 = Done w'" by auto
    from Suc.IH [OF r grows_thrd_join [OF j Suc.prems(2)]] show ?thesis .
  qed
qed

lemma grows_clean_up_threads:
  assumes "clean_up_threads E t c w = Done w'" and "grows p w"
  shows "grows p w'"
proof -
  from assms(1) obtain w1 where c: "cancel_waiters E t c 0 w = Done w1"
    and j: "join_waiters E t c 0 (emit (MtxUnlock WaitInfo) w1) = Done w'"
    by (auto simp: clean_up_threads_def Let_def split: if_splits)
  from grows_cancel_waiters [OF c assms(2)] have "grows p (emit (MtxUnlock WaitInfo) w1)" by simp
  from grows_join_waiters [OF j this] show ?thesis .
qed

lemma grows_info_wait:
  assumes "info_wait E t timed f w = Done (f', w')" and "grows p w"
  shows "grows p w'"
proof -
  from assms(1) have
    "interfere (yield E t) (emit (if timed then CndTimedwait WaitInfo else CndWait WaitInfo) w)
       = Done w'"
    by (auto simp: info_wait_def)
  moreover from assms(2) have
    "grows p (emit (if timed then CndTimedwait WaitInfo else CndWait WaitInfo) w)" by simp
  ultimately show ?thesis by (rule grows_interfere)
qed

lemma grows_clean_up_wait_info_cnd:
  "grows p w \<Longrightarrow> grows p (snd (clean_up_wait_info_cnd f w))"
  by (simp add: clean_up_wait_info_cnd_def)

lemma grows_wait_rounds:
  "wait_rounds E pe c wait_all timed fuel t ph f w = Done (r, w') \<Longrightarrow> grows p w \<Longrightarrow>
   grows p w'"
proof (induction fuel arbitrary: t ph f w)
  case 0
  then show ?case by simp
next
  case (Suc n)
  show ?case
  proof (cases ph)
    case Restart
    with Suc.prems(1) obtain failure w1 where
      sp: "spawn E t pe c 0 w = Done (failure, w1)"
      and r: "(case failure of
         Some (k, st) \<Rightarrow>
           rbind (join_below E t k 0 w1) (\<lambda>w2.
             Done (clean_up_wait_info_cnd (f\<lparr>thrd_status := st\<rparr>) w2))
       | None \<Rightarrow>
           rbind (interfere (yield E t) w1) (\<lambda>w2.
             if status E S_wm_info_lock t 0 \<noteq> thrd_success then Aborted
             else wait_rounds E pe c wait_all timed n (Suc t) Scan
                    (f\<lparr>thrd_status := thrd_success\<rparr>) (emit (MtxLock WaitInfo) w2))) = Done (r, w')"
      by auto
    note g1 = grows_spawn [OF sp Suc.prems(2)]
    show ?thesis
    proof (cases failure)
      case None
      with r obtain w2 where
        i: "interfere (yield E t) w1 = Done w2"
        and w: "wait_rounds E pe c wait_all timed n (Suc t) Scan
                  (f\<lparr>thrd_status := thrd_success\<rparr>) (emit (MtxLock WaitInfo) w2) = Done (r, w')"
        by (auto split: if_splits)
      from grows_interfere [OF i g1] have "grows p (emit (MtxLock WaitInfo) w2)" by simp
      from Suc.IH [OF w this] show ?thesis .
    next
      case (Some a)
      obtain k st where a: "a = (k, st)" by (cases a)
      with Some r obtain w2 where j: "join_below E t k 0 w1 = Done w2"
        and e: "clean_up_wait_info_cnd (f\<lparr>thrd_status := st\<rparr>) w2 = (r, w')"
        by auto
      from grows_clean_up_wait_info_cnd [OF grows_join_below [OF j g1], of "f\<lparr>thrd_status := st\<rparr>"] e
      show ?thesis by simp
    qed
  next
    case Scan
    from Scan Suc.prems(1) obtain l f1 w1 f2 w2 where
      sc: "scan E t pe c wait_all f w = Done (l, f1, w1)"
      and iw: "(if l then Done (f1, w1) else info_wait E t timed f1 w1) = Done (f2, w2)"
      and r: "(if \<not> l \<and> thrd_status f2 = thrd_success
         then wait_rounds E pe c wait_all timed n (Suc t) Scan f2 w2
         else
           rbind (clean_up_threads E t c w2) (\<lambda>w3.
             if wait_all \<and> err f2 = 0 \<and> thrd_status f2 = thrd_success \<and> \<not> all_signaled f2
             then wait_rounds E pe c wait_all timed n (Suc t) Restart f2 w3
             else Done (clean_up_wait_info_cnd f2 w3))) = Done (r, w')"
      by auto
    note g1 = grows_scan [OF sc Suc.prems(2)]
    have g2: "grows p w2"
    proof (cases l)
      case True
      with iw g1 show ?thesis by simp
    next
      case False
      with iw have "info_wait E t timed f1 w1 = Done (f2, w2)" by simp
      from grows_info_wait [OF this g1] show ?thesis .
    qed
    show ?thesis
    proof (cases "\<not> l \<and> thrd_status f2 = thrd_success")
      case True
      with r have w: "wait_rounds E pe c wait_all timed n (Suc t) Scan f2 w2 = Done (r, w')"
        by simp
      from Suc.IH [OF w g2] show ?thesis .
    next
      case False
      with r obtain w3 where
        cl: "clean_up_threads E t c w2 = Done w3"
        and r3: "(if wait_all \<and> err f2 = 0 \<and> thrd_status f2 = thrd_success \<and> \<not> all_signaled f2
             then wait_rounds E pe c wait_all timed n (Suc t) Restart f2 w3
             else Done (clean_up_wait_info_cnd f2 w3)) = Done (r, w')"
        by auto
      note g3 = grows_clean_up_threads [OF cl g2]
      show ?thesis
      proof (cases "wait_all \<and> err f2 = 0 \<and> thrd_status f2 = thrd_success \<and> \<not> all_signaled f2")
        case True
        with r3 have w: "wait_rounds E pe c wait_all timed n (Suc t) Restart f2 w3 = Done (r, w')"
          by simp
        from Suc.IH [OF w g3] show ?thesis .
      next
        case False
        with r3 have "clean_up_wait_info_cnd f2 w3 = (r, w')" by simp
        with grows_clean_up_wait_info_cnd [OF g3, of f2] show ?thesis by simp
      qed
    qed
  qed
qed

lemma grows_event_wait_loop:
  "event_wait_loop E p' timed fuel k w = Done (st, w') \<Longrightarrow> grows p w \<Longrightarrow> grows p w'"
proof (induction fuel arbitrary: k w)
  case 0
  then show ?case by (auto split: if_splits)
next
  case (Suc n)
  show ?case
  proof (cases "signaled (events w p')")
    case True
    with Suc.prems show ?thesis by (auto split: if_splits)
  next
    case False
    let ?w1 = "emit (if timed then CndTimedwait (EventSync p') else CndWait (EventSync p')) w"
    let ?w2 = "set_held p' True (apply_stores (yield E k) (set_held p' False ?w1))"
    from Suc.prems(2) have g: "grows p ?w2" by simp
    show ?thesis
    proof (cases "status E S_wait_cnd k p' = thrd_success")
      case True
      with False Suc.prems(1) have "event_wait_loop E p' timed n (Suc k) ?w2 = Done (st, w')"
        by (simp add: Let_def)
      from Suc.IH [OF this g] show ?thesis .
    next
      case nt: False
      with False Suc.prems(1) have "w' = ?w2" by (simp add: Let_def)
      with g show ?thesis by simp
    qed
  qed
qed

lemma grows_event_wait:
  assumes "event_wait E fuel p' p_time w = Done (r, w')" and "grows p w"
  shows "grows p w'"
proof (cases "p' \<noteq> NULL \<and> status E S_wait_lock 0 p' = thrd_success")
  case False
  with assms show ?thesis by (auto simp: event_wait_def Let_def split: if_splits)
next
  case True
  with assms(1) obtain st1 w2 where
    l: "event_wait_loop E p' (p_time \<noteq> None) fuel 0 (mtx_lock thrd_success p' w) = Done (st1, w2)"
    and e: "w' = mtx_unlock (status E S_wait_unlock 0 p') p' w2"
    by (auto simp: event_wait_def Let_def)
  from assms(2) have "grows p (mtx_lock thrd_success p' w)" by simp
  from grows_event_wait_loop [OF l this] e show ?thesis by simp
qed

lemma trace_event_wait_multiple:
  assumes "event_wait_multiple E fuel p_events c_events wait_all p_time p_idx w = Done (r, w')"
  shows "grows (trace (zero_idx p_idx w)) w'"
proof -
  let ?w0 = "zero_idx p_idx w"
  have g0: "grows (trace ?w0) ?w0" by (simp add: grows_def)
  show ?thesis
  proof (cases "c_events = 0 \<or> p_events = None \<or> (\<not> wait_all \<and> p_idx = None)")
    case True
    with assms g0 show ?thesis
      by (auto simp: event_wait_multiple_def Let_def split: option.splits if_splits)
  next
    case False
    then obtain pe where pe: "p_events = Some pe" and c0: "c_events \<noteq> 0"
      and v: "wait_all \<or> p_idx \<noteq> None" by auto
    show ?thesis
    proof (cases "c_events = 1")
      case True
      with assms pe v have "event_wait E fuel (pe 0) p_time ?w0 = Done (r, w')"
        by (auto simp: event_wait_multiple_def Let_def)
      from grows_event_wait [OF this g0] show ?thesis .
    next
      case c1: False
      let ?w1 = "emit Calloc ?w0"
      let ?w2 = "emit (MtxInit WaitInfo) (?w1\<lparr>waiters := (\<lambda>i. zero_waiter)\<rparr>)"
      let ?w3 = "emit (CndInit WaitInfo) ?w2"
      from g0 have g: "grows (trace ?w0) ?w1" "grows (trace ?w0) (emit Free ?w2)"
        "grows (trace ?w0) (emit Free (emit (MtxDestroy WaitInfo) ?w3))" "grows (trace ?w0) ?w3"
        by simp_all
      show ?thesis
      proof (cases "calloc_ok E \<and> status E S_wm_mtx_init 0 0 = thrd_success
                    \<and> status E S_wm_cnd_init 0 0 = thrd_success")
        case False
        with assms pe v c0 c1 g show ?thesis
          by (auto simp: event_wait_multiple_def Let_def split: if_splits)
      next
        case True
        with assms pe v c0 c1 have
          "wait_rounds E pe c_events wait_all (p_time \<noteq> None) fuel 0 Restart
             \<lparr>err = 0, thrd_status = thrd_success, all_signaled = False\<rparr> ?w3 = Done (r, w')"
          by (auto simp: event_wait_multiple_def Let_def)
        from grows_wait_rounds [OF this g(4)] show ?thesis .
      qed
    qed
  qed
qed

text \<open>
  Claim C10. With a non-null out pointer, \<^verbatim>\<open>event_wait_multiple\<close> stores zero through
  it before anything else (the store is the first action the call adds to the trace), and on
  every return -- count zero, invalid arguments, count one, allocation or
  initialisation failure, \<^verbatim>\<open>wait_all\<close> mode, timeout, primitive failure -- the cell
  still holds zero, except after a \<^verbatim>\<open>wait_any\<close> success, where it holds the index of
  the winner, which may be nonzero.
\<close>

theorem out_index_zero_unless_wait_any_success:
  assumes "event_wait_multiple E fuel p_events c_events wait_all p_time (Some ()) w = Done (r, w')"
  shows "(\<exists>tr. trace w' = trace w @ SetIdx 0 # tr) \<and>
         (idx_signaled_event w' = 0 \<or>
          (\<not> wait_all \<and> r = 0 \<and> 0 < idx_signaled_event w' \<and> idx_signaled_event w' < c_events))"
proof
  from trace_event_wait_multiple [OF assms]
  show "\<exists>tr. trace w' = trace w @ SetIdx 0 # tr"
    by (simp add: grows_def zero_idx_def)
next
  have z: "idx_signaled_event (zero_idx (Some ()) w) = 0" by (simp add: zero_idx_def)
  from assms have "idx_signaled_event w' = 0 \<or>
        (\<not> wait_all \<and> r = 0 \<and> idx_signaled_event w' < c_events)"
  proof (cases rule: event_wait_multiple_cases)
    case (one pe)
    with z idx_event_wait [OF one(3)] show ?thesis by simp
  next
    case (rounds pe w3)
    from wait_rounds_idx [OF rounds(5)] rounds(4) z show ?thesis by simp
  qed (use z in simp_all)
  then show "idx_signaled_event w' = 0 \<or>
          (\<not> wait_all \<and> r = 0 \<and> 0 < idx_signaled_event w' \<and> idx_signaled_event w' < c_events)"
    by auto
qed

theorem out_index_zero_unless_wait_any_success_witness:
  "\<exists>w'. event_wait_multiple (env_second_signaled (\<lambda>s t i. thrd_success)) 3 (Some Suc) 2 False
           (None :: unit option) (Some ()) (world_of (\<lambda>a. event_of False False)) = Done (0, w') \<and>
        idx_signaled_event (world_of (\<lambda>a. event_of False False)) = 7 \<and>
        idx_signaled_event w' = 1 \<and> (\<exists>tr. trace w' = SetIdx 0 # tr) \<and>
        (idx_signaled_event w' = 0 \<or>
         (\<not> False \<and> (0::int) = 0 \<and> 0 < idx_signaled_event w' \<and> idx_signaled_event w' < 2))"
proof -
  let ?E = "env_second_signaled (\<lambda>s t i. thrd_success)"
  have "\<exists>w'. event_wait_multiple ?E 3 (Some Suc) 2 False
           (None :: unit option) (Some ()) (world_of (\<lambda>a. event_of False False)) = Done (0, w') \<and>
        idx_signaled_event w' = 1"
    by (simp add: evals)
  then obtain w' where
    h: "event_wait_multiple ?E 3 (Some Suc) 2 False
           (None :: unit option) (Some ()) (world_of (\<lambda>a. event_of False False)) = Done (0, w')"
    and i: "idx_signaled_event w' = 1"
    by blast
  from out_index_zero_unless_wait_any_success [OF h] h i show ?thesis
    by (auto simp: world_of_def)
qed

lemma errno_not_canceled [simp]: "thrd_status_to_errno st \<noteq> ECANCELED"
  by (cases st) (simp_all add: ECANCELED_def ENOMEM_def ETIMEDOUT_def EBUSY_def)

lemma no_cancel_event_wait_helper:
  assumes "event_wait_helper h i w = Done (code, w')" and "no_cancel c w"
  shows "no_cancel c w' \<and> (i < c \<longrightarrow> code \<noteq> ECANCELED)"
proof -
  from event_wait_helper_Done [OF assms(1)] obtain w1 where
    w': "w' = w1\<lparr>waiters := (waiters w1)(i := (waiters w1 i)\<lparr>thrd := Exited code, is_done := True\<rparr>)\<rparr>"
    and ws: "waiters w1 = waiters w" and cc: "code = ECANCELED \<longrightarrow> canceled (waiters w i)"
    by blast
  from cc assms(2) have c: "i < c \<longrightarrow> code \<noteq> ECANCELED" by (auto simp: no_cancel_def)
  with assms(2) w' ws show ?thesis by (auto simp: no_cancel_def)
qed

lemma no_cancel_interfere:
  "interfere as w = Done w' \<Longrightarrow> no_cancel c w \<Longrightarrow> no_cancel c w'"
proof (induction as arbitrary: w)
  case Nil
  then show ?case by simp
next
  case (Cons a as)
  show ?case
  proof (cases a)
    case (Store x y)
    with Cons.prems have "interfere as (if mtx_held (events w x) then w else set_signaled x y w) = Done w'"
      by simp
    moreover from Cons.prems have "no_cancel c (if mtx_held (events w x) then w else set_signaled x y w)"
      by (simp add: no_cancel_def)
    ultimately show ?thesis by (rule Cons.IH)
  next
    case (Finish i h)
    show ?thesis
    proof (cases "thrd (waiters w i) = Running")
      case False
      with Finish Cons.prems have "interfere as w = Done w'" by simp
      then show ?thesis using Cons.prems(2) by (rule Cons.IH)
    next
      case True
      show ?thesis
      proof (cases "event_wait_helper h i w")
        case (Done x)
        obtain code w1 where x: "x = (code, w1)" by (cases x)
        with Done True Finish Cons.prems have "interfere as w1 = Done w'" by simp
        moreover from no_cancel_event_wait_helper Done x Cons.prems(2) have "no_cancel c w1" by blast
        ultimately show ?thesis by (rule Cons.IH)
      next
        case Blocked
        with True Finish Cons.prems have "interfere as w = Done w'" by simp
        then show ?thesis using Cons.prems(2) by (rule Cons.IH)
      qed (use True Finish Cons.prems in simp_all)
    qed
  qed
qed

lemma no_cancel_thrd_join:
  assumes "thrd_join E t i w = Done (code, w')" and "no_cancel c w"
  shows "no_cancel c w' \<and> (i < c \<longrightarrow> code \<noteq> ECANCELED)"
proof (cases "thrd (waiters w i)")
  case NotStarted
  with assms show ?thesis by (simp add: thrd_join_def)
next
  case Running
  with assms(1) have "event_wait_helper (at_join E t i) i (emit (ThrdJoin i) w) = Done (code, w')"
    by (simp add: thrd_join_def)
  moreover from assms(2) have "no_cancel c (emit (ThrdJoin i) w)" by (simp add: no_cancel_def)
  ultimately show ?thesis by (rule no_cancel_event_wait_helper)
next
  case (Exited x)
  with assms(1) have "code = x" "w' = emit (ThrdJoin i) w" by (simp_all add: thrd_join_def)
  with assms(2) Exited show ?thesis by (auto simp: no_cancel_def)
qed

lemma no_cancel_join_done:
  assumes "join_done E t i f w = Done (failed, f', w')" and "no_cancel c w" and "i < c"
    and "err f \<noteq> ECANCELED"
  shows "no_cancel c w' \<and> err f' \<noteq> ECANCELED"
  using assms(1)
proof (cases rule: join_done_cases)
  case skip
  with assms show ?thesis by simp
next
  case (joined code w1)
  from no_cancel_thrd_join [OF joined(2) assms(2)] assms(3)
  have "no_cancel c w1" "code \<noteq> ECANCELED" by simp_all
  with joined show ?thesis by (auto simp: no_cancel_def ECANCELED_def)
qed

lemma no_cancel_scan_all:
  "scan_all E t n i f w = Done (l, f', w') \<Longrightarrow> no_cancel c w \<Longrightarrow> i + n \<le> c \<Longrightarrow>
   err f \<noteq> ECANCELED \<Longrightarrow> no_cancel c w' \<and> err f' \<noteq> ECANCELED"
proof (induction n arbitrary: i f w)
  case 0
  then show ?case by simp
next
  case (Suc n)
  show ?case
  proof (cases "is_done (waiters w i)")
    case False
    with Suc.prems have "scan_all E t n (Suc i) (f\<lparr>all_signaled := False\<rparr>) w = Done (l, f', w')"
      by simp
    from Suc.IH [OF this Suc.prems(2)] Suc.prems(3,4) show ?thesis by simp
  next
    case True
    with Suc.prems obtain failed f1 w1 where
      j: "join_done E t i f w = Done (failed, f1, w1)"
      and r: "(if failed then Done (True, f1, w1) else scan_all E t n (Suc i) f1 w1)
                = Done (l, f', w')"
      by auto
    from Suc.prems(3) have "i < c" by simp
    from no_cancel_join_done [OF j Suc.prems(2) this Suc.prems(4)]
    have n1: "no_cancel c w1" and e1: "err f1 \<noteq> ECANCELED" by simp_all
    show ?thesis
    proof (cases failed)
      case True
      with r n1 e1 show ?thesis by simp
    next
      case False
      with r have "scan_all E t n (Suc i) f1 w1 = Done (l, f', w')" by simp
      from Suc.IH [OF this n1 _ e1] Suc.prems(3) show ?thesis by simp
    qed
  qed
qed


lemma waiters_lock_event:
  "lock_event st a w = Done w' \<Longrightarrow> waiters w' = waiters w"
  by (auto simp: lock_event_def split: if_splits)

lemma lock_events_frame:
  "lock_events E t pe n k f w = Done (l, f', w') \<Longrightarrow> waiters w' = waiters w \<and> err f' = err f"
proof (induction n arbitrary: k f w)
  case 0
  then show ?case by simp
next
  case (Suc n)
  from Suc.prems obtain w1 where l: "lock_event (status E S_wm_verify_lock t k) (pe k) w = Done w1"
    by (auto simp: Let_def)
  from waiters_lock_event [OF l] Suc.prems l Suc.IH show ?case
    by (auto simp: Let_def split: if_splits)
qed

lemma unlock_events_frame:
  "unlock_events E t pe a n i st w = (st', w') \<Longrightarrow> waiters w' = waiters w"
  by (induction n arbitrary: i st w) (auto simp: Let_def split: if_splits)

lemma verify_group_frame:
  assumes "verify_group E t pe c f w = Done (f', w')"
  shows "waiters w' = waiters w \<and> err f' = err f"
proof -
  from assms obtain locked f1 w1 where
    l: "lock_events E t pe c 0 f w = Done (locked, f1, w1)"
    by (auto simp: verify_group_def)
  obtain st2 w2 where u: "unlock_events E t pe (all_signaled f1) locked 0 thrd_success w1 = (st2, w2)"
    by (cases "unlock_events E t pe (all_signaled f1) locked 0 thrd_success w1")
  from assms l u have "w' = w2" "err f' = err f1"
    by (auto simp: verify_group_def split: if_splits)
  with lock_events_frame [OF l] unlock_events_frame [OF u] show ?thesis by simp
qed

lemma waiters_consume_any:
  "consume_any E t pe i w = Done w' \<Longrightarrow> waiters w' = waiters w"
  by (auto simp: consume_any_def Let_def split: if_splits dest!: waiters_lock_event)

lemma no_cancel_scan_any:
  "scan_any E t pe n i f w = Done (l, f', w') \<Longrightarrow> no_cancel c w \<Longrightarrow> i + n \<le> c \<Longrightarrow>
   err f \<noteq> ECANCELED \<Longrightarrow> no_cancel c w' \<and> err f' \<noteq> ECANCELED"
proof (induction n arbitrary: i w)
  case 0
  then show ?case by simp
next
  case (Suc n)
  show ?case
  proof (cases "is_done (waiters w i)")
    case False
    with Suc.prems have "scan_any E t pe n (Suc i) f w = Done (l, f', w')" by simp
    from Suc.IH [OF this Suc.prems(2)] Suc.prems(3,4) show ?thesis by simp
  next
    case True
    with Suc.prems obtain failed f1 w1 where
      j: "join_done E t i f w = Done (failed, f1, w1)"
      and r: "(if failed then Done (True, f1, w1)
               else rbind (consume_any E t pe i w1) (\<lambda>w2. Done (True, f1, w2))) = Done (l, f', w')"
      by auto
    from Suc.prems(3) have "i < c" by simp
    from no_cancel_join_done [OF j Suc.prems(2) this Suc.prems(4)]
    have n1: "no_cancel c w1" and e1: "err f1 \<noteq> ECANCELED" by simp_all
    show ?thesis
    proof (cases failed)
      case True
      with r n1 e1 show ?thesis by simp
    next
      case False
      with r obtain w2 where c: "consume_any E t pe i w1 = Done w2" and e: "f' = f1" "w' = w2"
        by auto
      from waiters_consume_any [OF c] n1 e e1 show ?thesis by (simp add: no_cancel_def)
    qed
  qed
qed

lemma no_cancel_scan:
  assumes "scan E t pe c wait_all f w = Done (l, f', w')" and "no_cancel c w"
    and "err f \<noteq> ECANCELED"
  shows "no_cancel c w' \<and> err f' \<noteq> ECANCELED"
proof (cases wait_all)
  case False
  with assms(1) have "scan_any E t pe c 0 f w = Done (l, f', w')" by (simp add: scan_def)
  from no_cancel_scan_any [OF this assms(2) _ assms(3)] show ?thesis by simp
next
  case True
  with assms(1) obtain l1 f1 w1 where
    s: "scan_all E t c 0 (f\<lparr>all_signaled := True\<rparr>) w = Done (l1, f1, w1)"
    and r: "(if l1 then Done (True, f1, w1)
             else if all_signaled f1 then
               rbind (verify_group E t pe c f1 w1) (\<lambda>(f2, w2). Done (True, f2, w2))
             else Done (False, f1, w1)) = Done (l, f', w')"
    by (auto simp: scan_def)
  from no_cancel_scan_all [OF s assms(2)] assms(3)
  have n1: "no_cancel c w1" and e1: "err f1 \<noteq> ECANCELED" by simp_all
  show ?thesis
  proof (cases "\<not> l1 \<and> all_signaled f1")
    case False
    with r n1 e1 show ?thesis by (auto split: if_splits)
  next
    case True
    with r have "verify_group E t pe c f1 w1 = Done (f', w')" by auto
    from verify_group_frame [OF this] n1 e1 show ?thesis by (simp add: no_cancel_def)
  qed
qed

lemma no_cancel_spawn:
  "spawn E t pe n i w = Done (None, w') \<Longrightarrow> no_cancel i w \<Longrightarrow> no_cancel (i + n) w'"
proof (induction n arbitrary: i w)
  case 0
  then show ?case by simp
next
  case (Suc n)
  let ?w2 = "emit (ThrdCreate i) (w\<lparr>waiters := (waiters w)(i := (waiters w i)
                 \<lparr>p_event := pe i, joinable := True, canceled := False, is_done := False\<rparr>)\<rparr>)"
  let ?w3 = "?w2\<lparr>waiters := (waiters ?w2)(i := (waiters ?w2 i)\<lparr>thrd := Running\<rparr>)\<rparr>"
  from Suc.prems(1) have s: "spawn E t pe n (Suc i) ?w3 = Done (None, w')"
    by (simp add: Let_def split: if_splits)
  from Suc.prems(2) have "no_cancel (Suc i) ?w3"
    by (auto simp: no_cancel_def less_Suc_eq)
  from Suc.IH [OF s this] show ?case by simp
qed


lemma clean_up_not_canceled:
  "err f \<noteq> ECANCELED \<Longrightarrow> fst (clean_up_wait_info_cnd f w) \<noteq> ECANCELED"
  by (simp add: clean_up_wait_info_cnd_def)

lemma wait_rounds_not_canceled:
  "wait_rounds E pe c wait_all timed fuel t ph f w = Done (r, w') \<Longrightarrow> err f \<noteq> ECANCELED \<Longrightarrow>
   (ph = Scan \<longrightarrow> no_cancel c w) \<Longrightarrow> r \<noteq> ECANCELED"
proof (induction fuel arbitrary: t ph f w)
  case 0
  then show ?case by simp
next
  case (Suc n)
  show ?case
  proof (cases ph)
    case Restart
    with Suc.prems(1) obtain failure w1 where
      sp: "spawn E t pe c 0 w = Done (failure, w1)"
      and r: "(case failure of
         Some (k, st) \<Rightarrow>
           rbind (join_below E t k 0 w1) (\<lambda>w2.
             Done (clean_up_wait_info_cnd (f\<lparr>thrd_status := st\<rparr>) w2))
       | None \<Rightarrow>
           rbind (interfere (yield E t) w1) (\<lambda>w2.
             if status E S_wm_info_lock t 0 \<noteq> thrd_success then Aborted
             else wait_rounds E pe c wait_all timed n (Suc t) Scan
                    (f\<lparr>thrd_status := thrd_success\<rparr>) (emit (MtxLock WaitInfo) w2))) = Done (r, w')"
      by auto
    show ?thesis
    proof (cases failure)
      case None
      with r obtain w2 where
        i: "interfere (yield E t) w1 = Done w2"
        and w: "wait_rounds E pe c wait_all timed n (Suc t) Scan
                  (f\<lparr>thrd_status := thrd_success\<rparr>) (emit (MtxLock WaitInfo) w2) = Done (r, w')"
        by (auto split: if_splits)
      have "no_cancel 0 w" by (simp add: no_cancel_def)
      with no_cancel_spawn [of E t pe c 0 w w1] sp None have "no_cancel c w1" by simp
      with no_cancel_interfere [OF i] have "no_cancel c (emit (MtxLock WaitInfo) w2)"
        by (simp add: no_cancel_def)
      with Suc.IH [OF w] Suc.prems(2) show ?thesis by simp
    next
      case (Some a)
      obtain k st where a: "a = (k, st)" by (cases a)
      with Some r obtain w2 where
        e: "clean_up_wait_info_cnd (f\<lparr>thrd_status := st\<rparr>) w2 = (r, w')"
        by auto
      with Suc.prems(2) show ?thesis by (auto simp: clean_up_wait_info_cnd_def split: if_splits)
    qed
  next
    case Scan
    with Suc.prems have nc: "no_cancel c w" by simp
    from Scan Suc.prems(1) obtain l f1 w1 f2 w2 where
      sc: "scan E t pe c wait_all f w = Done (l, f1, w1)"
      and iw: "(if l then Done (f1, w1) else info_wait E t timed f1 w1) = Done (f2, w2)"
      and r: "(if \<not> l \<and> thrd_status f2 = thrd_success
         then wait_rounds E pe c wait_all timed n (Suc t) Scan f2 w2
         else
           rbind (clean_up_threads E t c w2) (\<lambda>w3.
             if wait_all \<and> err f2 = 0 \<and> thrd_status f2 = thrd_success \<and> \<not> all_signaled f2
             then wait_rounds E pe c wait_all timed n (Suc t) Restart f2 w3
             else Done (clean_up_wait_info_cnd f2 w3))) = Done (r, w')"
      by auto
    from no_cancel_scan [OF sc nc Suc.prems(2)]
    have n1: "no_cancel c w1" and e1: "err f1 \<noteq> ECANCELED" by simp_all
    have e2: "err f2 \<noteq> ECANCELED" and n2: "no_cancel c w2"
    proof -
      show "err f2 \<noteq> ECANCELED" using iw e1 by (auto simp: info_wait_def split: if_splits)
      show "no_cancel c w2"
      proof (cases l)
        case True
        with iw n1 show ?thesis by simp
      next
        case False
        with iw obtain w1' where
          "interfere (yield E t)
             (emit (if timed then CndTimedwait WaitInfo else CndWait WaitInfo) w1) = Done w1'"
          and "w2 = w1'" by (auto simp: info_wait_def)
        moreover from n1 have
          "no_cancel c (emit (if timed then CndTimedwait WaitInfo else CndWait WaitInfo) w1)"
          by (simp add: no_cancel_def)
        ultimately show ?thesis using no_cancel_interfere by blast
      qed
    qed
    show ?thesis
    proof (cases "\<not> l \<and> thrd_status f2 = thrd_success")
      case True
      with r have w: "wait_rounds E pe c wait_all timed n (Suc t) Scan f2 w2 = Done (r, w')"
        by simp
      from Suc.IH [OF w e2] n2 show ?thesis by simp
    next
      case False
      with r obtain w3 where
        r3: "(if wait_all \<and> err f2 = 0 \<and> thrd_status f2 = thrd_success \<and> \<not> all_signaled f2
             then wait_rounds E pe c wait_all timed n (Suc t) Restart f2 w3
             else Done (clean_up_wait_info_cnd f2 w3)) = Done (r, w')"
        by auto
      show ?thesis
      proof (cases "wait_all \<and> err f2 = 0 \<and> thrd_status f2 = thrd_success \<and> \<not> all_signaled f2")
        case True
        with r3 have w: "wait_rounds E pe c wait_all timed n (Suc t) Restart f2 w3 = Done (r, w')"
          by simp
        from Suc.IH [OF w e2] show ?thesis by simp
      next
        case False
        with r3 have "r = fst (clean_up_wait_info_cnd f2 w3)" by auto
        with clean_up_not_canceled [OF e2] show ?thesis by simp
      qed
    qed
  qed
qed

lemma event_wait_not_canceled:
  "event_wait E fuel p p_time w = Done (r, w') \<Longrightarrow> r \<noteq> ECANCELED"
  by (auto simp: event_wait_def Let_def EINVAL_def split: if_splits)
     (simp add: ECANCELED_def)

text \<open>
  Claim C4. \<^verbatim>\<open>event_wait_multiple\<close> never returns \<open>ECANCELED\<close>, on any path and in any
  environment: a proxy joined by a scan was not canceled, so its exit code is not
  \<open>ECANCELED\<close>, and the exit codes of the proxies canceled in the teardown are dropped.
\<close>

theorem event_wait_multiple_never_canceled:
  "event_wait_multiple E fuel p_events c_events wait_all p_time p_idx w \<noteq> Done (ECANCELED, w')"
proof
  assume "event_wait_multiple E fuel p_events c_events wait_all p_time p_idx w = Done (ECANCELED, w')"
  then show False
  proof (cases rule: event_wait_multiple_cases)
    case zero
    then show ?thesis by (simp add: ECANCELED_def)
  next
    case invalid
    then show ?thesis by (simp add: ECANCELED_def EINVAL_def)
  next
    case (one pe)
    with event_wait_not_canceled show ?thesis by blast
  next
    case (init_failed st)
    then show ?thesis using errno_not_canceled [of st] by (auto simp: ECANCELED_def ENOMEM_def)
  next
    case (rounds pe w3)
    from wait_rounds_not_canceled [OF rounds(5)] show ?thesis by (simp add: ECANCELED_def)
  qed
qed


theorem event_wait_multiple_never_canceled_witness:
  "\<exists>w'. event_wait_multiple env_timeout 2 (Some Suc) 2 True (Some ()) None
           (world_of (\<lambda>a. event_of False False)) = Done (ETIMEDOUT, w') \<and>
        thrd (waiters w' 0) = Exited ECANCELED \<and> thrd (waiters w' 1) = Exited ECANCELED \<and>
        event_wait_multiple env_timeout 2 (Some Suc) 2 True (Some ()) None
           (world_of (\<lambda>a. event_of False False)) \<noteq> Done (ECANCELED, w')"
proof -
  have "\<exists>w'. event_wait_multiple env_timeout 2 (Some Suc) 2 True (Some ()) None
           (world_of (\<lambda>a. event_of False False)) = Done (ETIMEDOUT, w') \<and>
        thrd (waiters w' 0) = Exited ECANCELED \<and> thrd (waiters w' 1) = Exited ECANCELED"
    by (simp add: evals)
  with event_wait_multiple_never_canceled [of env_timeout 2 "Some Suc" 2 True "Some ()" None
      "world_of (\<lambda>a. event_of False False)"]
  show ?thesis by blast
qed

lemma same_locks_thrd_join:
  "thrd_join E t i w = Done (code, w') \<Longrightarrow> same_locks w w'"
  by (auto simp: thrd_join_def same_locks_def Let_def split: thread.splits
      dest!: event_wait_helper_Done)

lemma consume_any_clears:
  assumes "consume_any E t pe i w = Done w'" and "\<not> is_manual_reset (events w (pe i))"
    and "status E S_wm_any_lock t i = thrd_success"
  shows "\<not> signaled (events w' (pe i))"
  using assms by (auto simp: consume_any_def lock_event_def Let_def split: if_splits)

lemma scan_any_winner:
  "scan_any E t pe n i f w = Done (True, f', w') \<Longrightarrow> err f' = 0 \<Longrightarrow>
   thrd_status f' = thrd_success \<Longrightarrow>
   \<exists>k. i \<le> k \<and> k < i + n \<and> is_done (waiters w k) \<and>
       (\<forall>j. i \<le> j \<and> j < k \<longrightarrow> \<not> is_done (waiters w j)) \<and>
       idx_signaled_event w' = k \<and>
       (\<not> is_manual_reset (events w (pe k)) \<and> status E S_wm_any_lock t k = thrd_success
          \<longrightarrow> \<not> signaled (events w' (pe k)))"
proof (induction n arbitrary: i w)
  case 0
  then show ?case by simp
next
  case (Suc n)
  show ?case
  proof (cases "is_done (waiters w i)")
    case False
    with Suc.prems have "scan_any E t pe n (Suc i) f w = Done (True, f', w')" by simp
    from Suc.IH [OF this Suc.prems(2,3)] obtain k where
      k: "Suc i \<le> k" "k < Suc i + n" "is_done (waiters w k)"
        "\<forall>j. Suc i \<le> j \<and> j < k \<longrightarrow> \<not> is_done (waiters w j)"
        "idx_signaled_event w' = k"
        "\<not> is_manual_reset (events w (pe k)) \<and> status E S_wm_any_lock t k = thrd_success
          \<longrightarrow> \<not> signaled (events w' (pe k))"
      by blast
    have "\<forall>j. i \<le> j \<and> j < k \<longrightarrow> \<not> is_done (waiters w j)"
    proof (intro allI impI)
      fix j assume "i \<le> j \<and> j < k"
      with k(4) False show "\<not> is_done (waiters w j)" by (cases "j = i") auto
    qed
    with k show ?thesis by (intro exI [of _ k]) simp
  next
    case True
    with Suc.prems obtain failed f1 w1 where
      j: "join_done E t i f w = Done (failed, f1, w1)"
      and r: "(if failed then Done (True, f1, w1)
               else rbind (consume_any E t pe i w1) (\<lambda>w2. Done (True, f1, w2))) = Done (True, f', w')"
      by auto
    have nf: "\<not> failed"
    proof
      assume failed
      with r have "f' = f1" by simp
      with j \<open>failed\<close> Suc.prems(2,3) show False
        by (cases rule: join_done_cases) auto
    qed
    with r obtain c: "consume_any E t pe i w1 = Done w'" by auto
    from j have "same_locks w w1"
      by (cases rule: join_done_cases) (auto simp: same_locks_def dest!: same_locks_thrd_join)
    then have m: "is_manual_reset (events w1 (pe i)) = is_manual_reset (events w (pe i))"
      by (simp add: same_locks_def)
    from consume_any_clears [OF c] m
    have "\<not> is_manual_reset (events w (pe i)) \<and> status E S_wm_any_lock t i = thrd_success
          \<longrightarrow> \<not> signaled (events w' (pe i))" by simp
    with consume_any_idx [OF c] True show ?thesis by (intro exI [of _ i]) auto
  qed
qed

lemma spawn_failure_status:
  "spawn E t pe n i w = Done (Some (k, st), w') \<Longrightarrow> st \<noteq> thrd_success"
  by (induction n arbitrary: i w) (auto simp: Let_def split: if_splits)

lemma wait_rounds_any_success:
  "wait_rounds E pe c False timed fuel t ph f w = Done (0, w') \<Longrightarrow> err f = 0 \<Longrightarrow>
   (ph = Scan \<longrightarrow> thrd_status f = thrd_success) \<Longrightarrow>
   \<exists>t' f0 f' ws ws' w3.
     scan_any E t' pe c 0 f0 ws = Done (True, f', ws') \<and> err f' = 0 \<and>
     thrd_status f' = thrd_success \<and> clean_up_threads E t' c ws' = Done w3 \<and>
     w' = snd (clean_up_wait_info_cnd f' w3)"
proof (induction fuel arbitrary: t ph f w)
  case 0
  then show ?case by simp
next
  case (Suc n)
  show ?case
  proof (cases ph)
    case Restart
    with Suc.prems(1) obtain failure w1 where
      sp: "spawn E t pe c 0 w = Done (failure, w1)"
      and r: "(case failure of
         Some (k, st) \<Rightarrow>
           rbind (join_below E t k 0 w1) (\<lambda>w2.
             Done (clean_up_wait_info_cnd (f\<lparr>thrd_status := st\<rparr>) w2))
       | None \<Rightarrow>
           rbind (interfere (yield E t) w1) (\<lambda>w2.
             if status E S_wm_info_lock t 0 \<noteq> thrd_success then Aborted
             else wait_rounds E pe c False timed n (Suc t) Scan
                    (f\<lparr>thrd_status := thrd_success\<rparr>) (emit (MtxLock WaitInfo) w2))) = Done (0, w')"
      by auto
    show ?thesis
    proof (cases failure)
      case None
      with r obtain w2 where
        w: "wait_rounds E pe c False timed n (Suc t) Scan
                  (f\<lparr>thrd_status := thrd_success\<rparr>) (emit (MtxLock WaitInfo) w2) = Done (0, w')"
        by (auto split: if_splits)
      from Suc.IH [OF w] Suc.prems(2) show ?thesis by simp
    next
      case (Some a)
      obtain k st where a: "a = (k, st)" by (cases a)
      with Some r obtain w2 where
        e: "clean_up_wait_info_cnd (f\<lparr>thrd_status := st\<rparr>) w2 = (0, w')"
        by auto
      from sp Some a have "st \<noteq> thrd_success" by (auto dest: spawn_failure_status)
      with e Suc.prems(2) show ?thesis by (simp add: clean_up_wait_info_cnd_def)
    qed
  next
    case Scan
    with Suc.prems have ts: "thrd_status f = thrd_success" by simp
    from Scan Suc.prems(1) obtain l f1 w1 f2 w2 where
      sc: "scan_any E t pe c 0 f w = Done (l, f1, w1)"
      and iw: "(if l then Done (f1, w1) else info_wait E t timed f1 w1) = Done (f2, w2)"
      and r0: "(if \<not> l \<and> thrd_status f2 = thrd_success
         then wait_rounds E pe c False timed n (Suc t) Scan f2 w2
         else
           rbind (clean_up_threads E t c w2) (\<lambda>w3.
             if False \<and> err f2 = 0 \<and> thrd_status f2 = thrd_success \<and> \<not> all_signaled f2
             then wait_rounds E pe c False timed n (Suc t) Restart f2 w3
             else Done (clean_up_wait_info_cnd f2 w3))) = Done (0, w')"
      by (auto simp: scan_def)
    from r0 have r: "(if \<not> l \<and> thrd_status f2 = thrd_success
         then wait_rounds E pe c False timed n (Suc t) Scan f2 w2
         else
           rbind (clean_up_threads E t c w2) (\<lambda>w3. Done (clean_up_wait_info_cnd f2 w3)))
         = Done (0, w')"
      by (simp cong: if_cong)
    note si = scan_any_idx [OF sc Suc.prems(2) ts]
    show ?thesis
    proof (cases l)
      case True
      with iw have e: "f2 = f1" "w2 = w1" by simp_all
      with True r obtain w3 where
        cl: "clean_up_threads E t c w1 = Done w3"
        and c: "clean_up_wait_info_cnd f1 w3 = (0, w')" by auto
      from c have "err f1 = 0" "thrd_status f1 = thrd_success" "w' = snd (clean_up_wait_info_cnd f1 w3)"
        by (auto simp: clean_up_wait_info_cnd_def split: if_splits)
      with sc True cl show ?thesis
        by (intro exI [of _ t] exI [of _ f] exI [of _ f1] exI [of _ w] exI [of _ w1]
            exI [of _ w3]) simp
    next
      case False
      with si have f1: "f1 = f" by auto
      from False iw have e2: "err f2 = err f1" by (auto simp: info_wait_def)
      show ?thesis
      proof (cases "thrd_status f2 = thrd_success")
        case True
        with False r have w: "wait_rounds E pe c False timed n (Suc t) Scan f2 w2 = Done (0, w')"
          by simp
        from Suc.IH [OF w] e2 f1 Suc.prems(2) True show ?thesis by simp
      next
        case nt: False
        with False r obtain w3 where "clean_up_wait_info_cnd f2 w3 = (0, w')" by auto
        with nt e2 f1 Suc.prems(2) show ?thesis
          by (auto simp: clean_up_wait_info_cnd_def split: if_splits)
      qed
    qed
  qed
qed

text \<open>
  The winner of \<^verbatim>\<open>wait_any\<close>. When \<^verbatim>\<open>event_wait_multiple\<close> returns success in
  \<^verbatim>\<open>wait_any\<close> mode on two or more events, the return comes from a scan that left
  through its winner branch, followed by the teardown; the index in the out cell is the
  lowest index whose proxy was done in the world that scan saw; and if the winner is
  auto-reset and the coordinator's \<^verbatim>\<open>mtx_lock\<close> on it succeeded, its \<open>signaled\<close> flag
  is false when the scan leaves.
\<close>

theorem wait_any_returns_lowest_done_index:
  assumes "event_wait_multiple E fuel (Some pe) c_events False p_time (Some ()) w = Done (0, w')"
    and "2 \<le> c_events"
  shows "\<exists>t f f' ws ws' w3 k.
     scan_any E t pe c_events 0 f ws = Done (True, f', ws') \<and>
     clean_up_threads E t c_events ws' = Done w3 \<and>
     w' = snd (clean_up_wait_info_cnd f' w3) \<and>
     k < c_events \<and> is_done (waiters ws k) \<and> (\<forall>j<k. \<not> is_done (waiters ws j)) \<and>
     idx_signaled_event w' = k \<and>
     (\<not> is_manual_reset (events ws (pe k)) \<and> status E S_wm_any_lock t k = thrd_success
        \<longrightarrow> \<not> signaled (events ws' (pe k)))"
  using assms(1)
proof (cases rule: event_wait_multiple_cases)
  case zero
  with assms(2) show ?thesis by simp
next
  case invalid
  then show ?thesis by (simp add: EINVAL_def)
next
  case (one pe')
  with assms(2) show ?thesis by simp
next
  case (init_failed st)
  then show ?thesis by (auto simp: ENOMEM_def)
next
  case (rounds pe' w3)
  then have "wait_rounds E pe c_events False (p_time \<noteq> None) fuel 0 Restart
         \<lparr>err = 0, thrd_status = thrd_success, all_signaled = False\<rparr> w3 = Done (0, w')"
    by simp
  from wait_rounds_any_success [OF this] obtain t f f' ws ws' w4 where
    sc: "scan_any E t pe c_events 0 f ws = Done (True, f', ws')"
    and ok: "err f' = 0" "thrd_status f' = thrd_success"
    and cl: "clean_up_threads E t c_events ws' = Done w4"
    and w': "w' = snd (clean_up_wait_info_cnd f' w4)"
    by auto
  from scan_any_winner [OF sc ok] obtain k where
    k: "k < c_events" "is_done (waiters ws k)" "\<forall>j<k. \<not> is_done (waiters ws j)"
      "idx_signaled_event ws' = k"
      "\<not> is_manual_reset (events ws (pe k)) \<and> status E S_wm_any_lock t k = thrd_success
        \<longrightarrow> \<not> signaled (events ws' (pe k))"
    by auto
  from w' idx_clean_up_threads [OF cl] k(4) have "idx_signaled_event w' = k"
    by (simp add: clean_up_wait_info_cnd_def)
  with sc cl w' k show ?thesis by blast
qed

text \<open>
  The first scenario of the specification: two auto-reset events at addresses 1 and 2,
  the second signaled while the caller waits. The call returns success with index 1
  and the second event consumed.
\<close>

theorem wait_any_returns_lowest_done_index_witness:
  "\<exists>w'. event_wait_multiple (env_second_signaled (\<lambda>s t i. thrd_success)) 3 (Some Suc) 2 False
           (None :: unit option) (Some ()) (world_of (\<lambda>a. event_of False False)) = Done (0, w') \<and>
        (2::nat) \<le> 2 \<and> idx_signaled_event w' = 1 \<and> \<not> signaled (events w' 2) \<and>
        (\<exists>t f f' ws ws' w3 k.
           scan_any (env_second_signaled (\<lambda>s t i. thrd_success)) t Suc 2 0 f ws
             = Done (True, f', ws') \<and>
           clean_up_threads (env_second_signaled (\<lambda>s t i. thrd_success)) t 2 ws' = Done w3 \<and>
           w' = snd (clean_up_wait_info_cnd f' w3) \<and>
           k < 2 \<and> is_done (waiters ws k) \<and> (\<forall>j<k. \<not> is_done (waiters ws j)) \<and>
           idx_signaled_event w' = k)"
proof -
  let ?E = "env_second_signaled (\<lambda>s t i. thrd_success)"
  have "\<exists>w'. event_wait_multiple ?E 3 (Some Suc) 2 False
           (None :: unit option) (Some ()) (world_of (\<lambda>a. event_of False False)) = Done (0, w') \<and>
        idx_signaled_event w' = 1 \<and> \<not> signaled (events w' 2)"
    by (simp add: evals)
  then obtain w' where
    h: "event_wait_multiple ?E 3 (Some Suc) 2 False
           (None :: unit option) (Some ()) (world_of (\<lambda>a. event_of False False)) = Done (0, w')"
    and i: "idx_signaled_event w' = 1" "\<not> signaled (events w' 2)"
    by blast
  have c: "(2::nat) \<le> 2" by simp
  from wait_any_returns_lowest_done_index [OF h c] h i show ?thesis by blast
qed

section \<open>Where the code departs from the specification\<close>

text \<open>
  Claim C1 (group verification releases every mutex it holds, the one of the event
  found unsignaled included) does not hold of the code. Two auto-reset events at
  addresses 1 and 2, both proxies done, the first event consumed by another thread
  meanwhile: the first loop takes the mutex of event 1, finds it unsignaled and breaks
  with \<^verbatim>\<open>locked = 0\<close>; the second loop runs over \<open>i < 0\<close>, so that mutex is never
  released. The locals ask for a restart, which then starts with the mutex held: the
  respawned proxy of event 1 cannot take it, nobody can signal the event, and when
  the deadline passes the teardown asks for the same mutex again. The whole call, on
  two signaled events and with a deadline, never returns.
\<close>

theorem verify_group_leaves_mutex_held:
  "(\<exists>f' w'. verify_group env_ok 1 Suc 2 frame_all_done
              (world_of (\<lambda>a. event_of (a \<noteq> 1) False)) = Done (f', w') \<and>
     err f' = 0 \<and> thrd_status f' = thrd_success \<and> \<not> all_signaled f' \<and>
     mtx_held (events w' 1) \<and> trace w' = [MtxLock (EventSync 1)]) \<and>
   (\<forall>fuel. event_wait_multiple env_first_consumed fuel (Some Suc) 2 True (Some ()) None
      (world_of (\<lambda>a. event_of True False)) = Blocked)"
proof (intro conjI allI)
  show "\<exists>f' w'. verify_group env_ok 1 Suc 2 frame_all_done
              (world_of (\<lambda>a. event_of (a \<noteq> 1) False)) = Done (f', w') \<and>
     err f' = 0 \<and> thrd_status f' = thrd_success \<and> \<not> all_signaled f' \<and>
     mtx_held (events w' 1) \<and> trace w' = [MtxLock (EventSync 1)]"
    by (simp add: evals)
next
  fix fuel
  let ?call = "\<lambda>n. event_wait_multiple env_first_consumed n (Some Suc) 2 True (Some ()) None
      (world_of (\<lambda>a. event_of True False))"
  have short: "?call 0 = Blocked" "?call 1 = Blocked" "?call 2 = Blocked" "?call 3 = Blocked"
    by (simp_all add: evals)
  have long: "?call (Suc (Suc (Suc (Suc n)))) = Blocked" for n
    by (simp add: evals)
  show "?call fuel = Blocked"
  proof (cases "fuel < 4")
    case True
    then have "fuel = 0 \<or> fuel = 1 \<or> fuel = 2 \<or> fuel = 3" by arith
    with short show ?thesis by auto
  next
    case False
    then obtain n where "fuel = Suc (Suc (Suc (Suc n)))"
      by (metis add_Suc_right add_Suc less_iff_Suc_add not_less numeral_Bit0 numeral_One
          One_nat_def Suc_eq_plus1 le_Suc_ex plus_1_eq_Suc add.commute)
    with long show ?thesis by simp
  qed
qed

text \<open>
  Claim C2 (after a failed \<^verbatim>\<open>thrd_create\<close> the proxies already spawned are canceled and
  their condition variables broadcast before they are joined) does not hold of the
  code. When the second \<^verbatim>\<open>thrd_create\<close> fails, the trace goes from the creations
  straight to the join of proxy 0, with no \<open>SetCanceled\<close> and no \<open>CndBroadcast\<close>; the
  call returns only if somebody signals the first event, and otherwise never.
\<close>

theorem spawn_failure_joins_without_cancel:
  "observe (event_wait_multiple (env_create_fails [wakeup_ok True]) 1 (Some Suc) 2 True
      (None :: unit option) (Some ()) (world_of (\<lambda>a. event_of False False))) =
     Done (ENOMEM, 0, [SetIdx 0, Calloc, MtxInit WaitInfo, CndInit WaitInfo,
                       ThrdCreate 0, ThrdCreate 1, ThrdJoin 0,
                       CndDestroy WaitInfo, MtxDestroy WaitInfo, Free]) \<and>
   (\<forall>fuel. event_wait_multiple (env_create_fails [wakeup_ok False]) fuel (Some Suc) 2 True
      (None :: unit option) (Some ()) (world_of (\<lambda>a. event_of False False)) = Blocked)"
proof (intro conjI allI)
  show "observe (event_wait_multiple (env_create_fails [wakeup_ok True]) 1 (Some Suc) 2 True
      (None :: unit option) (Some ()) (world_of (\<lambda>a. event_of False False))) =
     Done (ENOMEM, 0, [SetIdx 0, Calloc, MtxInit WaitInfo, CndInit WaitInfo,
                       ThrdCreate 0, ThrdCreate 1, ThrdJoin 0,
                       CndDestroy WaitInfo, MtxDestroy WaitInfo, Free])"
    by (simp add: evals)
next
  fix fuel
  show "event_wait_multiple (env_create_fails [wakeup_ok False]) fuel (Some Suc) 2 True
      (None :: unit option) (Some ()) (world_of (\<lambda>a. event_of False False)) = Blocked"
    by (cases fuel) (simp_all add: evals)
qed

text \<open>
  What lines 313-316 do when the coordinator's \<^verbatim>\<open>mtx_lock\<close> on an auto-reset winner
  fails: the index is written, the flag is left as it was, and no status is kept.
\<close>

lemma consume_any_lock_failure:
  assumes "\<not> is_manual_reset (events w (pe i))" and "\<not> mtx_held (events w (pe i))"
    and "status E S_wm_any_lock t i \<noteq> thrd_success"
  shows "consume_any E t pe i w =
           Done (emit (MtxLock (EventSync (pe i))) (emit (SetIdx i) (w\<lparr>idx_signaled_event := i\<rparr>)))"
  using assms by (simp add: consume_any_def lock_event_def mtx_lock_def Let_def)

text \<open>
  Claim C3 (on a \<^verbatim>\<open>wait_any\<close> success the out index is the lowest done index and an
  auto-reset winner has been consumed) does not hold of the code in its second part.
  Two auto-reset events at addresses 1 and 2, the second signaled while the caller
  waits, and the coordinator's \<^verbatim>\<open>mtx_lock\<close> on the winner (line 313) fails: the failure
  is swallowed, the call returns success with index 1, and the winner is still
  signaled -- the trace shows the lock attempt and no store to the flag. Every other
  lock of an event mutex in the file hands its failure to the caller.
\<close>

theorem wait_any_success_leaves_winner_signaled:
  "\<exists>w'. event_wait_multiple
           (env_second_signaled (\<lambda>s t i. if s = S_wm_any_lock then thrd_error else thrd_success))
           3 (Some Suc) 2 False (None :: unit option) (Some ())
           (world_of (\<lambda>a. event_of False False)) = Done (0, w') \<and>
        idx_signaled_event w' = 1 \<and> \<not> is_manual_reset (events w' 2) \<and> signaled (events w' 2) \<and>
        trace w' = [SetIdx 0, Calloc, MtxInit WaitInfo, CndInit WaitInfo, ThrdCreate 0,
                    ThrdCreate 1, MtxLock WaitInfo, CndWait WaitInfo, ThrdJoin 1, SetIdx 1,
                    MtxLock (EventSync 2),
                    MtxLock (EventSync 1), SetCanceled 0, CndBroadcast (EventSync 1),
                    MtxUnlock (EventSync 1), MtxUnlock WaitInfo, ThrdJoin 0,
                    CndDestroy WaitInfo, MtxDestroy WaitInfo, Free]"
  by (simp add: evals)

end
